theory Spec2Isabelle
  imports Complex_Main "HOL-Library.Word" "HOL-Library.Multiset"
begin

section \<open>Sensitive-Log-Cleaner: the file processor and the line scrubber\<close>

text \<open>
  A shallow embedding of \<^verbatim>\<open>src/core/processor.js\<close>, \<^verbatim>\<open>src/core/scrubber.js\<close>,
  \<^verbatim>\<open>src/core/config.js\<close> and the batch handler of \<^verbatim>\<open>main.js\<close>.

  JavaScript strings are modelled as \<^typ>\<open>string\<close>, a character standing for a
  code unit below 256; the regular expressions, \<open>JSON.parse\<close> and \<open>JSON.stringify\<close> of
  the platform are modelled on such strings. Exceptions are values of a sum type, with \<open>Inl\<close> the thrown
  error. A promise that never settles is the value \<open>None\<close>.
\<close>

subsection \<open>The file system seen by the processor\<close>

type_synonym byte = "8 word"

text \<open>A node is a regular file (readable or not, with its bytes) or a directory.\<close>

datatype fs_node = RegularFile bool "byte list" | Directory bool

type_synonym filesystem = "string \<rightharpoonup> fs_node"

subsection \<open>\<open>FileProcessor.isBinaryFile\<close>\<close>

text \<open>
  \<^verbatim>\<open>fs.readSync(fd, buffer, 0, 512, 0)\<close> fills the buffer with at most the first 512
  bytes of the file; \<open>bytesRead\<close> is the length of what was read.
\<close>

definition readSync512 :: "byte list \<Rightarrow> byte list" where
  "readSync512 bytes = take 512 bytes"

text \<open>The first loop returns \<open>true\<close> at the first null byte.\<close>

fun null_byte_loop :: "byte list \<Rightarrow> bool" where
  "null_byte_loop [] = False"
| "null_byte_loop (b # bs) = (if b = 0 then True else null_byte_loop bs)"

text \<open>The second loop counts the bytes below 32 other than tab, LF and CR.\<close>

fun nonPrintable_loop :: "byte list \<Rightarrow> nat \<Rightarrow> nat" where
  "nonPrintable_loop [] n = n"
| "nonPrintable_loop (b # bs) n =
     nonPrintable_loop bs (if b < 32 \<and> b \<noteq> 9 \<and> b \<noteq> 10 \<and> b \<noteq> 13 then n + 1 else n)"

text \<open>
  The body of the \<open>try\<close> block on the bytes of an opened file. The source compares the
  double \<open>nonPrintable / bytesRead\<close> with the double \<open>0.3\<close>. With at most 512 bytes read the
  quotient is either exactly three tenths, which rounds to the very double that the literal
  \<open>0.3\<close> denotes, or it differs from three tenths by at least 1/5120, far more than the
  rounding error: the comparison of doubles agrees with the comparison of the exact
  quotients. For an empty file the source computes \<open>NaN > 0.3\<close>, which is false, as is
  \<open>0 / 0 > 3 / 10\<close> in HOL.
\<close>

definition isBinaryBytes :: "byte list \<Rightarrow> bool" where
  "isBinaryBytes bytes =
     (let buffer = readSync512 bytes;
          bytesRead = length buffer
      in if null_byte_loop buffer then True
         else (let nonPrintable = nonPrintable_loop buffer 0
               in real nonPrintable / real bytesRead > 3 / 10))"

text \<open>
  \<open>openSync\<close> throws for a missing or unreadable path and \<open>readSync\<close> throws for a
  directory; the \<open>catch\<close> block answers \<open>false\<close>.
\<close>

definition isBinaryFile :: "filesystem \<Rightarrow> string \<Rightarrow> bool" where
  "isBinaryFile fs filePath =
     (case fs filePath of
        Some (RegularFile True bytes) \<Rightarrow> isBinaryBytes bytes
      | _ \<Rightarrow> False)"

text \<open>
  The classification in the words of the specification: binary when an inspected byte is
  null, or when more than 30 percent of the inspected bytes lie outside printable ASCII
  (32 to 126), tab, LF and CR.
\<close>

definition spec_printable :: "byte \<Rightarrow> bool" where
  "spec_printable b = ((32 \<le> b \<and> b \<le> 126) \<or> b = 9 \<or> b = 10 \<or> b = 13)"

definition spec_isBinary :: "byte list \<Rightarrow> bool" where
  "spec_isBinary bytes =
     (let inspected = take 512 bytes
      in 0 \<in> set inspected \<or>
         real (length (filter (\<lambda>b. \<not> spec_printable b) inspected)) / real (length inspected)
           > 3 / 10)"

text \<open>The bytes the code counts: control bytes that are not tab, LF or CR.\<close>

definition control_byte :: "byte \<Rightarrow> bool" where
  "control_byte b = (b < 32 \<and> b \<noteq> 9 \<and> b \<noteq> 10 \<and> b \<noteq> 13)"

subsection \<open>Strings of the platform\<close>

text \<open>
  A character stands for a UTF-16 code unit below 256. Characters are compared by their
  codes, the most significant bit first. The case of a letter is its sixth bit:
  \<open>toLowerCase\<close> sets it on \<open>A\<close> to \<open>Z\<close> and on the capital letters of Latin-1,
  \<open>toUpperCase\<close> clears it on the small letters that have a capital below 256. The
  white space of \<open>String.prototype.trim\<close> and of \<open>\s\<close> is, below 256, tab, LF, VT, FF,
  CR, space and the no-break space.
\<close>

fun bits_le :: "bool list \<Rightarrow> bool list \<Rightarrow> bool" where
  "bits_le (a # as) (b # bs) = (if a = b then bits_le as bs else b)"
| "bits_le as bs = True"

fun char_le :: "char \<Rightarrow> char \<Rightarrow> bool" where
  "char_le (Char a0 a1 a2 a3 a4 a5 a6 a7) (Char b0 b1 b2 b3 b4 b5 b6 b7) =
     bits_le [a7, a6, a5, a4, a3, a2, a1, a0] [b7, b6, b5, b4, b3, b2, b1, b0]"

definition is_digit :: "char \<Rightarrow> bool" where
  "is_digit c = (char_le CHR ''0'' c \<and> char_le c CHR ''9'')"
definition is_upper :: "char \<Rightarrow> bool" where
  "is_upper c = (char_le CHR ''A'' c \<and> char_le c CHR ''Z'')"
definition is_lower :: "char \<Rightarrow> bool" where
  "is_lower c = (char_le CHR ''a'' c \<and> char_le c CHR ''z'')"
definition is_control :: "char \<Rightarrow> bool" where
  "is_control c = char_le c (CHR 0x1F)"
definition is_word_char :: "char \<Rightarrow> bool" where
  "is_word_char c = (is_digit c \<or> is_upper c \<or> is_lower c \<or> c = CHR ''_'')"
definition is_upper_latin1 :: "char \<Rightarrow> bool" where
  "is_upper_latin1 c = (char_le (CHR 0xC0) c \<and> char_le c (CHR 0xDE) \<and> c \<noteq> CHR 0xD7)"
definition is_lower_latin1 :: "char \<Rightarrow> bool" where
  "is_lower_latin1 c = (char_le (CHR 0xE0) c \<and> char_le c (CHR 0xFE) \<and> c \<noteq> CHR 0xF7)"
fun toLower_char :: "char \<Rightarrow> char" where
  "toLower_char (Char b0 b1 b2 b3 b4 b5 b6 b7) =
     (if is_upper (Char b0 b1 b2 b3 b4 b5 b6 b7) \<or> is_upper_latin1 (Char b0 b1 b2 b3 b4 b5 b6 b7)
      then Char b0 b1 b2 b3 b4 True b6 b7
      else Char b0 b1 b2 b3 b4 b5 b6 b7)"
fun toUpper_char :: "char \<Rightarrow> char" where
  "toUpper_char (Char b0 b1 b2 b3 b4 b5 b6 b7) =
     (if is_lower (Char b0 b1 b2 b3 b4 b5 b6 b7) \<or> is_lower_latin1 (Char b0 b1 b2 b3 b4 b5 b6 b7)
      then Char b0 b1 b2 b3 b4 False b6 b7
      else Char b0 b1 b2 b3 b4 b5 b6 b7)"
definition is_line_terminator :: "char \<Rightarrow> bool" where
  "is_line_terminator c = (c = CHR 0x0A \<or> c = CHR 0x0D)"
definition js_whitespace :: "char \<Rightarrow> bool" where
  "js_whitespace c = (c \<in> set [CHR 0x09, CHR 0x0A, CHR 0x0B, CHR 0x0C, CHR 0x0D, CHR '' '', CHR 0xA0])"

definition js_trim :: "string \<Rightarrow> string" where
  "js_trim s = rev (dropWhile js_whitespace (rev (dropWhile js_whitespace s)))"

subsection \<open>Errors and the abort signal\<close>

text \<open>A thrown \<open>Error\<close> object: its \<open>name\<close>, its \<open>code\<close> when it has one, its \<open>message\<close>.\<close>

datatype js_error = JsError (err_name: string) (err_code: "string option") (err_message: string)

definition new_Error :: "string \<Rightarrow> js_error" where
  "new_Error m = JsError ''Error'' None m"

text \<open>The three Chinese message texts of the source, as their UTF-8 bytes.\<close>

definition msg_processing_cancelled :: string where
  "msg_processing_cancelled =
     map char_of [229, 164, 132, 231, 144, 134, 229, 183, 178, 229, 143, 150, 230, 182, 136 :: nat]"

definition msg_cancelled :: string where
  "msg_cancelled = map char_of [229, 183, 178, 229, 143, 150, 230, 182, 136 :: nat]"

definition msg_write_closed_early :: string where
  "msg_write_closed_early =
     map char_of [229, 134, 153, 229, 133, 165, 230, 181, 129, 230, 143, 144, 229, 137, 141,
       229, 133, 179, 233, 151, 173 :: nat]"

definition createAbortError :: "string \<Rightarrow> js_error" where
  "createAbortError m = JsError ''AbortError'' (Some ''ABORT_ERR'') m"

text \<open>The \<open>reason\<close> of an aborted signal: absent, a string, or an object with a message.\<close>

datatype abort_reason = ReasonUndefined | ReasonString string | ReasonObject string

record abort_signal =
  aborted :: bool
  reason :: abort_reason

definition signal_aborted :: "abort_signal option \<Rightarrow> bool" where
  "signal_aborted sg = (case sg of None \<Rightarrow> False | Some g \<Rightarrow> aborted g)"

definition abort_message :: "abort_reason \<Rightarrow> string" where
  "abort_message r =
     (case r of
        ReasonString t \<Rightarrow> if js_trim t \<noteq> [] then t else msg_processing_cancelled
      | ReasonObject m \<Rightarrow> if js_trim m \<noteq> [] then m else msg_processing_cancelled
      | ReasonUndefined \<Rightarrow> msg_processing_cancelled)"

definition throwIfAborted :: "abort_signal option \<Rightarrow> js_error + unit" where
  "throwIfAborted sg =
     (case sg of
        None \<Rightarrow> Inr ()
      | Some g \<Rightarrow> if \<not> aborted g then Inr ()
                  else Inl (createAbortError (abort_message (reason g))))"

definition isAbortError :: "js_error \<Rightarrow> bool" where
  "isAbortError e = (err_name e = ''AbortError'' \<or> err_code e = Some ''ABORT_ERR'')"

text \<open>
  \<open>error?.message || String(error)\<close>: the message, or for an empty message what
  \<open>Error.prototype.toString\<close> gives.
\<close>

definition error_toString :: "js_error \<Rightarrow> string" where
  "error_toString e =
     (if err_name e = [] then err_message e
      else if err_message e = [] then err_name e
      else err_name e @ '': '' @ err_message e)"

definition error_text :: "js_error \<Rightarrow> string" where
  "error_text e = (if err_message e \<noteq> [] then err_message e else error_toString e)"

subsection \<open>Results\<close>

record FileStats =
  totalLines :: nat
  maskedLines :: nat
  errors :: nat
  patternMatches :: "(string \<times> nat) list"

subsection \<open>Regular expressions\<close>

datatype class_item = CChar char | CRange char char | CDigit bool | CWord bool | CSpace bool

fun item_has :: "class_item \<Rightarrow> char \<Rightarrow> bool" where
  "item_has (CChar a) c = (c = a)"
| "item_has (CRange a b) c = (char_le a c \<and> char_le c b)"
| "item_has (CDigit pos) c = (is_digit c = pos)"
| "item_has (CWord pos) c = (is_word_char c = pos)"
| "item_has (CSpace pos) c = (js_whitespace c = pos)"

definition class_has :: "bool \<Rightarrow> class_item list \<Rightarrow> char \<Rightarrow> bool" where
  "class_has ic items c =
     (if ic then list_ex (\<lambda>i. item_has i c \<or> item_has i (toUpper_char c) \<or> item_has i (toLower_char c)) items
      else list_ex (\<lambda>i. item_has i c) items)"

datatype regex =
    REmpty | RChar char | RAny | RClass bool "class_item list" | RBol | REol | RWordB bool
  | RSeq regex regex | RAlt regex regex | RRepeat nat "nat option" bool regex | RGroup nat regex

type_synonym caps = "string option list"

fun group_ids :: "regex \<Rightarrow> nat list" where
  "group_ids (RSeq a b) = group_ids a @ group_ids b"
| "group_ids (RAlt a b) = group_ids a @ group_ids b"
| "group_ids (RRepeat mn mx g r) = group_ids r"
| "group_ids (RGroup n r) = n # group_ids r"
| "group_ids r = []"

definition clear_caps :: "nat list \<Rightarrow> caps \<Rightarrow> caps" where
  "clear_caps ns c = fold (\<lambda>n c. c[n := None]) ns c"

fun rmin :: "regex \<Rightarrow> nat" where
  "rmin (RRepeat mn mx g r) = mn"
| "rmin r = 0"

function re_match :: "bool \<Rightarrow> bool \<Rightarrow> regex \<Rightarrow> char option \<Rightarrow> string \<Rightarrow> caps \<Rightarrow> (char option \<times> string \<times> caps) list" where
  "re_match ic ml REmpty p s c = [(p, s, c)]"
| "re_match ic ml (RChar a) p s c =
     (case s of [] \<Rightarrow> []
      | x # xs \<Rightarrow> if (if ic then toUpper_char x = toUpper_char a else x = a) then [(Some x, xs, c)] else [])"
| "re_match ic ml RAny p s c =
     (case s of [] \<Rightarrow> [] | x # xs \<Rightarrow> if is_line_terminator x then [] else [(Some x, xs, c)])"
| "re_match ic ml (RClass neg items) p s c =
     (case s of [] \<Rightarrow> [] | x # xs \<Rightarrow> if class_has ic items x \<noteq> neg then [(Some x, xs, c)] else [])"
| "re_match ic ml RBol p s c =
     (if (case p of None \<Rightarrow> True | Some x \<Rightarrow> ml \<and> is_line_terminator x) then [(p, s, c)] else [])"
| "re_match ic ml REol p s c =
     (if (case s of [] \<Rightarrow> True | x # xs \<Rightarrow> ml \<and> is_line_terminator x) then [(p, s, c)] else [])"
| "re_match ic ml (RWordB pos) p s c =
     (let a = (case p of None \<Rightarrow> False | Some x \<Rightarrow> is_word_char x);
          b = (case s of [] \<Rightarrow> False | x # xs \<Rightarrow> is_word_char x)
      in if (a \<noteq> b) = pos then [(p, s, c)] else [])"
| "re_match ic ml (RSeq r1 r2) p s c =
     concat (map (\<lambda>(p', s', c'). re_match ic ml r2 p' s' c') (re_match ic ml r1 p s c))"
| "re_match ic ml (RAlt r1 r2) p s c = re_match ic ml r1 p s c @ re_match ic ml r2 p s c"
| "re_match ic ml (RGroup n r) p s c =
     map (\<lambda>(p', s', c'). (p', s', c'[n := Some (take (length s - length s') s)])) (re_match ic ml r p s c)"
| "re_match ic ml (RRepeat mn mx greedy r) p s c =
     (if mx = Some 0 then [(p, s, c)]
      else
        (let iter = concat (map (\<lambda>(p', s', c').
                      if mn = 0 \<and> length s \<le> length s' then []
                      else re_match ic ml (RRepeat (mn - 1) (map_option (\<lambda>k. k - 1) mx) greedy r) p' s' c')
                    (re_match ic ml r p s (clear_caps (group_ids r) c)))
         in if 0 < mn then iter else if greedy then iter @ [(p, s, c)] else (p, s, c) # iter))"
  by pat_completeness auto
termination
  apply (relation "measures [\<lambda>(ic, ml, r, p, s, c). size r, \<lambda>(ic, ml, r, p, s, c). rmin r,
                             \<lambda>(ic, ml, r, p, s, c). length s]")
  apply auto
  done


subsection \<open>Parsing a regular expression source\<close>

datatype pending = PNone | PAtom class_item | PDash class_item

definition hex_digit :: "char \<Rightarrow> nat option" where
  "hex_digit c =
     (let n = of_char c :: nat
      in if 48 \<le> n \<and> n \<le> 57 then Some (n - 48)
         else if 65 \<le> n \<and> n \<le> 70 then Some (n - 55)
         else if 97 \<le> n \<and> n \<le> 102 then Some (n - 87)
         else None)"

text \<open>A single character escape: the character it denotes.\<close>

definition control_escape :: "char \<Rightarrow> char option" where
  "control_escape e =
     (if e = CHR ''n'' then Some (CHR 0x0A)
      else if e = CHR ''r'' then Some (CHR 0x0D)
      else if e = CHR ''t'' then Some (CHR 0x09)
      else if e = CHR ''v'' then Some (CHR 0x0B)
      else if e = CHR ''f'' then Some (CHR 0x0C)
      else if is_digit e \<or> is_upper e \<or> is_lower e then None
      else Some e)"

definition class_escape :: "char \<Rightarrow> class_item option" where
  "class_escape e =
     (if e = CHR ''d'' then Some (CDigit True)
      else if e = CHR ''D'' then Some (CDigit False)
      else if e = CHR ''w'' then Some (CWord True)
      else if e = CHR ''W'' then Some (CWord False)
      else if e = CHR ''s'' then Some (CSpace True)
      else if e = CHR ''S'' then Some (CSpace False)
      else None)"

definition class_add :: "class_item list \<Rightarrow> pending \<Rightarrow> class_item \<Rightarrow> string + (class_item list \<times> pending)" where
  "class_add items pend a =
     (case pend of
        PNone \<Rightarrow> Inr (items, PAtom a)
      | PAtom x \<Rightarrow> Inr (items @ [x], PAtom a)
      | PDash x \<Rightarrow>
          (case (x, a) of
             (CChar lo, CChar hi) \<Rightarrow>
               if \<not> char_le lo hi then Inl ''Range out of order in character class''
               else Inr (items @ [CRange lo hi], PNone)
           | _ \<Rightarrow> Inr (items @ [x, CChar CHR ''-'', a], PNone)))"

fun parse_class :: "string \<Rightarrow> class_item list \<Rightarrow> pending \<Rightarrow> string + (class_item list \<times> string)" where
  "parse_class [] items pend = Inl ''Unterminated character class''"
| "parse_class (c # s) items pend =
     (if c = CHR '']'' then
        Inr (case pend of PNone \<Rightarrow> items | PAtom x \<Rightarrow> items @ [x]
             | PDash x \<Rightarrow> items @ [x, CChar CHR ''-''], s)
      else if c = CHR 0x5C then
        (case s of
           [] \<Rightarrow> Inl (CHR 0x5C # '' at end of pattern'')
         | e # s' \<Rightarrow>
             (case class_escape e of
                Some it \<Rightarrow>
                  (case class_add items pend it of
                     Inl err \<Rightarrow> Inl err
                   | Inr (items', pend') \<Rightarrow> parse_class s' items' pend')
              | None \<Rightarrow>
                  (case (if e = CHR ''b'' then Some (CHR 0x08)
                         else if e = CHR ''0'' then Some (CHR 0x00)
                         else control_escape e) of
                     None \<Rightarrow> Inl ''Unsupported escape''
                   | Some ch \<Rightarrow>
                       (case class_add items pend (CChar ch) of
                          Inl err \<Rightarrow> Inl err
                        | Inr (items', pend') \<Rightarrow> parse_class s' items' pend'))))
      else if c = CHR ''-'' then
        (case pend of
           PAtom x \<Rightarrow> parse_class s items (PDash x)
         | _ \<Rightarrow>
             (case class_add items pend (CChar c) of
                Inl err \<Rightarrow> Inl err
              | Inr (items', pend') \<Rightarrow> parse_class s items' pend'))
      else
        (case class_add items pend (CChar c) of
           Inl err \<Rightarrow> Inl err
         | Inr (items', pend') \<Rightarrow> parse_class s items' pend'))"

lemma parse_class_shorter:
  "parse_class s items pend = Inr (its, rest) \<Longrightarrow> length rest < length s"
  by (induction s items pend rule: parse_class.induct)
     (auto split: if_splits list.splits option.splits sum.splits prod.splits pending.splits
           simp: less_Suc_eq)

text \<open>Decimal digits to a number.\<close>

definition digits_value :: "string \<Rightarrow> nat" where
  "digits_value ds = foldl (\<lambda>n d. 10 * n + (of_char d - 48)) 0 ds"

text \<open>
  The text after an opening brace: \<open>n}\<close>, \<open>n,}\<close> or \<open>n,m}\<close> give the bounds and the rest;
  anything else is no quantifier, and the brace is then a literal character.
\<close>

definition parse_braces :: "string \<Rightarrow> (nat \<times> nat option \<times> string) option" where
  "parse_braces s =
     (let d1 = takeWhile is_digit s; r1 = dropWhile is_digit s
      in if d1 = [] then None
         else (case r1 of
                 c # r2 \<Rightarrow>
                   if c = CHR ''}'' then Some (digits_value d1, Some (digits_value d1), r2)
                   else if c = CHR '','' then
                     (let d2 = takeWhile is_digit r2; r3 = dropWhile is_digit r2
                      in case r3 of
                           c' # r4 \<Rightarrow>
                             if c' = CHR ''}'' then
                               Some (digits_value d1,
                                     if d2 = [] then None else Some (digits_value d2), r4)
                             else None
                         | [] \<Rightarrow> None)
                   else None
               | [] \<Rightarrow> None))"

lemma parse_braces_shorter:
  "parse_braces s = Some (mn, mx, rest) \<Longrightarrow> length rest < length s"
proof -
  have d: "length (dropWhile P xs) \<le> length xs" for P and xs :: string
    by (rule length_dropWhile_le)
  assume "parse_braces s = Some (mn, mx, rest)"
  then show ?thesis
    using d [of is_digit s] d [of is_digit "tl (dropWhile is_digit s)"]
    by (auto simp: parse_braces_def Let_def split: if_splits list.splits)
qed

datatype group_kind = GTop | GCapture nat | GNonCapture

text \<open>
  A frame of the parser: the kind of the group being read, its finished alternatives, the
  terms of the current alternative (last first), and whether the last term may take a
  quantifier.
\<close>

datatype frame = Frame group_kind "regex list" "regex list" bool

fun seq_of :: "regex list \<Rightarrow> regex" where
  "seq_of [] = REmpty"
| "seq_of [r] = r"
| "seq_of (r # rs) = RSeq r (seq_of rs)"

fun alt_of :: "regex list \<Rightarrow> regex" where
  "alt_of [] = REmpty"
| "alt_of [r] = r"
| "alt_of (r # rs) = RAlt r (alt_of rs)"

fun close_frame :: "frame \<Rightarrow> regex" where
  "close_frame (Frame k alts sq q) =
     (let body = alt_of (alts @ [seq_of (rev sq)])
      in case k of GCapture n \<Rightarrow> RGroup n body | _ \<Rightarrow> body)"

fun add_term :: "regex \<Rightarrow> bool \<Rightarrow> frame list \<Rightarrow> frame list" where
  "add_term t q (Frame k alts sq q0 # st) = Frame k alts (t # sq) q # st"
| "add_term t q [] = []"

fun quantify :: "nat \<Rightarrow> nat option \<Rightarrow> bool \<Rightarrow> frame list \<Rightarrow> string + frame list" where
  "quantify mn mx greedy (Frame k alts (t # sq) True # st) =
     Inr (Frame k alts (RRepeat mn mx greedy t # sq) False # st)"
| "quantify mn mx greedy st = Inl ''Nothing to repeat''"

text \<open>A quantifier is lazy when a question mark follows it.\<close>

definition lazy_mark :: "string \<Rightarrow> bool \<times> string" where
  "lazy_mark s = (case s of c # s' \<Rightarrow> if c = CHR ''?'' then (False, s') else (True, s) | [] \<Rightarrow> (True, s))"

lemma lazy_mark_le: "lazy_mark s = (g, rest) \<Longrightarrow> length rest \<le> length s"
  by (auto simp: lazy_mark_def split: list.splits if_splits)

function parse_re :: "string \<Rightarrow> frame list \<Rightarrow> nat \<Rightarrow> string + (regex \<times> nat)" where
  "parse_re [] st n =
     (case st of [f] \<Rightarrow> Inr (close_frame f, n) | _ \<Rightarrow> Inl ''Unterminated group'')"
| "parse_re (c # s) st n =
     (if c = CHR ''('' then
        (case s of
           q # s1 \<Rightarrow>
             if q = CHR ''?'' then
               (case s1 of
                  k # s2 \<Rightarrow>
                    if k = CHR '':'' then parse_re s2 (Frame GNonCapture [] [] False # st) n
                    else Inl ''Unsupported group''
                | [] \<Rightarrow> Inl ''Invalid group'')
             else parse_re s (Frame (GCapture n) [] [] False # st) (n + 1)
         | [] \<Rightarrow> parse_re s (Frame (GCapture n) [] [] False # st) (n + 1))
      else if c = CHR '')'' then
        (case st of
           f # g # st' \<Rightarrow> parse_re s (add_term (close_frame f) True (g # st')) n
         | _ \<Rightarrow> Inl ''Unmatched )'')
      else if c = CHR ''|'' then
        (case st of
           Frame k alts sq q # st' \<Rightarrow> parse_re s (Frame k (alts @ [seq_of (rev sq)]) [] False # st') n
         | [] \<Rightarrow> Inl ''Unterminated group'')
      else if c = CHR ''*'' \<or> c = CHR ''+'' \<or> c = CHR ''?'' then
        (case lazy_mark s of
           (greedy, rest) \<Rightarrow>
             (case quantify (if c = CHR ''+'' then 1 else 0)
                            (if c = CHR ''?'' then Some 1 else None) greedy st of
                Inl err \<Rightarrow> Inl err
              | Inr st' \<Rightarrow> parse_re rest st' n))
      else if c = CHR ''{'' then
        (case parse_braces s of
           None \<Rightarrow> parse_re s (add_term (RChar c) True st) n
         | Some (mn, mx, s1) \<Rightarrow>
             if (case mx of Some m \<Rightarrow> m < mn | None \<Rightarrow> False)
             then Inl ''numbers out of order in {} quantifier''
             else
               (case lazy_mark s1 of
                  (greedy, rest) \<Rightarrow>
                    (case quantify mn mx greedy st of
                       Inl err \<Rightarrow> Inl err
                     | Inr st' \<Rightarrow> parse_re rest st' n)))
      else if c = CHR ''['' then
        (let neg = (case s of x # xs \<Rightarrow> x = CHR ''^'' | [] \<Rightarrow> False)
         in case parse_class (if neg then tl s else s) [] PNone of
              Inl err \<Rightarrow> Inl err
            | Inr (items, rest) \<Rightarrow> parse_re rest (add_term (RClass neg items) True st) n)
      else if c = CHR 0x5C then
        (case s of
           [] \<Rightarrow> Inl (CHR 0x5C # '' at end of pattern'')
         | e # s' \<Rightarrow>
             if e = CHR ''b'' then parse_re s' (add_term (RWordB True) False st) n
             else if e = CHR ''B'' then parse_re s' (add_term (RWordB False) False st) n
             else
               (case class_escape e of
                  Some it \<Rightarrow> parse_re s' (add_term (RClass False [it]) True st) n
                | None \<Rightarrow>
                    (case control_escape e of
                       Some ch \<Rightarrow> parse_re s' (add_term (RChar ch) True st) n
                     | None \<Rightarrow> Inl ''Unsupported escape'')))
      else if c = CHR ''.'' then parse_re s (add_term RAny True st) n
      else if c = CHR ''^'' then parse_re s (add_term RBol False st) n
      else if c = CHR ''$'' then parse_re s (add_term REol False st) n
      else parse_re s (add_term (RChar c) True st) n)"
  by pat_completeness auto
termination
  apply (relation "measure (\<lambda>(s, st, n). length s)")
  apply (auto dest!: parse_class_shorter parse_braces_shorter lazy_mark_le [OF sym]
              split: if_splits)
  done

declare parse_re.simps [simp del]

record regexp =
  re_ast :: regex
  re_ngroups :: nat
  re_global :: bool
  re_ignoreCase :: bool
  re_multiline :: bool

subsection \<open>\<open>new RegExp(source, flags)\<close>\<close>

fun parse_flags :: "string \<Rightarrow> bool \<times> bool \<times> bool \<Rightarrow> string + (bool \<times> bool \<times> bool)" where
  "parse_flags [] acc = Inr acc"
| "parse_flags (c # cs) (g, i, m) =
     (if c = CHR ''g'' \<and> \<not> g then parse_flags cs (True, i, m)
      else if c = CHR ''i'' \<and> \<not> i then parse_flags cs (g, True, m)
      else if c = CHR ''m'' \<and> \<not> m then parse_flags cs (g, i, True)
      else Inl ''Invalid flags supplied to RegExp constructor'')"

definition RegExp_new :: "string \<Rightarrow> string \<Rightarrow> js_error + regexp" where
  "RegExp_new source flags =
     (case parse_flags flags (False, False, False) of
        Inl msg \<Rightarrow> Inl (JsError ''SyntaxError'' None (msg @ '' '' @ flags))
      | Inr (g, i, m) \<Rightarrow>
          (case parse_re source [Frame GTop [] [] False] 0 of
             Inl msg \<Rightarrow>
               Inl (JsError ''SyntaxError'' None
                      (''Invalid regular expression: /'' @ source @ ''/'' @ flags @ '': '' @ msg))
           | Inr (r, n) \<Rightarrow>
               Inr \<lparr>re_ast = r, re_ngroups = n, re_global = g, re_ignoreCase = i,
                    re_multiline = m\<rparr>))"

subsection \<open>Matching and replacing\<close>

text \<open>
  The match of a regular expression at one position, if any: the first result of the
  backtracking search, as its captures and the number of characters it takes.
\<close>

definition match_here :: "regexp \<Rightarrow> char option \<Rightarrow> string \<Rightarrow> (caps \<times> nat) option" where
  "match_here rx prev rest =
     (case re_match (re_ignoreCase rx) (re_multiline rx) (re_ast rx) prev rest
             (replicate (re_ngroups rx) None) of
        [] \<Rightarrow> None
      | (p', s', c') # others \<Rightarrow> Some (c', length rest - length s'))"

lemma match_here_le: "match_here rx prev rest = Some (c, n) \<Longrightarrow> n \<le> length rest"
  by (auto simp: match_here_def split: list.splits)

text \<open>
  A string cut by the matches of a regular expression: characters outside a match, and the
  matches with their position, text and captures. With the \<open>g\<close> flag every match from left
  to right is taken, the search resuming after a match (one character further after an
  empty match); without it only the first.
\<close>

datatype segment = Lit char | Match nat string caps

function regex_split :: "regexp \<Rightarrow> char option \<Rightarrow> string \<Rightarrow> nat \<Rightarrow> segment list" where
  "regex_split rx prev rest pos =
     (case match_here rx prev rest of
        Some (c, n) \<Rightarrow>
          Match pos (take n rest) c #
            (if \<not> re_global rx then map Lit (drop n rest)
             else if 0 < n then regex_split rx (Some (rest ! (n - 1))) (drop n rest) (pos + n)
             else (case rest of [] \<Rightarrow> [] | x # xs \<Rightarrow> Lit x # regex_split rx (Some x) xs (pos + 1)))
      | None \<Rightarrow>
          (case rest of [] \<Rightarrow> [] | x # xs \<Rightarrow> Lit x # regex_split rx (Some x) xs (pos + 1)))"
  by pat_completeness auto
termination
  apply (relation "measure (\<lambda>(rx, prev, rest, pos). length rest)")
  apply (auto dest!: match_here_le)
  done

declare regex_split.simps [simp del]

fun segment_text :: "segment \<Rightarrow> string" where
  "segment_text (Lit c) = [c]"
| "segment_text (Match pos t c) = t"

fun is_match :: "segment \<Rightarrow> bool" where
  "is_match (Lit c) = False"
| "is_match (Match pos t c) = True"

text \<open>
  \<open>str.replace(regex, fn)\<close>: every match is replaced by what the function returns for the
  matched text, the captures, the position and the whole string.
\<close>

definition js_replace ::
  "regexp \<Rightarrow> (string \<Rightarrow> caps \<Rightarrow> nat \<Rightarrow> string \<Rightarrow> string) \<Rightarrow> string \<Rightarrow> string" where
  "js_replace rx f s =
     concat (map (\<lambda>seg. case seg of Lit c \<Rightarrow> [c] | Match pos t c \<Rightarrow> f t c pos s)
               (regex_split rx None s 0))"

text \<open>
  \<open>(str.match(regex) || []).length\<close>: with the \<open>g\<close> flag the number of matches; without
  it the array holds the match and one entry per group.
\<close>

definition js_match_length :: "regexp \<Rightarrow> string \<Rightarrow> nat" where
  "js_match_length rx s =
     (let n = length (filter is_match (regex_split rx None s 0))
      in if re_global rx then n else if n = 0 then 0 else 1 + re_ngroups rx)"

text \<open>A capture in a replacement: the empty string when the group did not take part.\<close>

definition cap_text :: "caps \<Rightarrow> nat \<Rightarrow> string" where
  "cap_text c k = (case c ! (k - 1) of None \<Rightarrow> [] | Some t \<Rightarrow> t)"

text \<open>The substitution of a replacement template (\<open>$$\<close>, \<open>$&\<close>, \<open>$`\<close>, \<open>$'\<close>, \<open>$n\<close>, \<open>$nn\<close>).\<close>

fun expand_template :: "string \<Rightarrow> string \<Rightarrow> caps \<Rightarrow> nat \<Rightarrow> string \<Rightarrow> string" where
  "expand_template [] t c pos s = []"
| "expand_template [x] t c pos s = [x]"
| "expand_template (x # y # r) t c pos s =
     (if x \<noteq> CHR ''$'' then x # expand_template (y # r) t c pos s
      else if y = CHR ''$'' then CHR ''$'' # expand_template r t c pos s
      else if y = CHR ''&'' then t @ expand_template r t c pos s
      else if y = CHR 0x60 then take pos s @ expand_template r t c pos s
      else if y = CHR 0x27 then drop (pos + length t) s @ expand_template r t c pos s
      else if is_digit y then
        (let d1 = of_char y - (48::nat);
             two = (case r of z # r' \<Rightarrow>
                      if is_digit z \<and> 1 \<le> 10 * d1 + (of_char z - 48)
                         \<and> 10 * d1 + (of_char z - 48) \<le> length c
                      then Some (10 * d1 + (of_char z - 48)) else None
                    | [] \<Rightarrow> None)
         in case two of
              Some k \<Rightarrow> cap_text c k @ expand_template (tl r) t c pos s
            | None \<Rightarrow>
                if 1 \<le> d1 \<and> d1 \<le> length c then cap_text c d1 @ expand_template r t c pos s
                else x # expand_template (y # r) t c pos s)
      else x # expand_template (y # r) t c pos s)"

text \<open>
  \<open>str.replace(regex, template)\<close> and \<open>str.replace(pattern, template)\<close> with a string
  pattern, which replaces its first occurrence.
\<close>

definition js_replace_template :: "regexp \<Rightarrow> string \<Rightarrow> string \<Rightarrow> string" where
  "js_replace_template rx tpl s = js_replace rx (expand_template tpl) s"

fun index_of :: "string \<Rightarrow> string \<Rightarrow> nat \<Rightarrow> nat option" where
  "index_of [] pat k = (if pat = [] then Some k else None)"
| "index_of (x # xs) pat k =
     (if take (length pat) (x # xs) = pat then Some k else index_of xs pat (k + 1))"

definition js_replace_string :: "string \<Rightarrow> string \<Rightarrow> string \<Rightarrow> string" where
  "js_replace_string s pat tpl =
     (case index_of s pat 0 of
        None \<Rightarrow> s
      | Some k \<Rightarrow> take k s @ expand_template tpl pat [] k s @ drop (k + length pat) s)"

subsection \<open>JSON\<close>

text \<open>
  A JSON value. A number keeps its text: \<open>JSON.stringify\<close> prints it as it was read, which
  is what the program does for numbers in their shortest form. An object keeps its
  properties in the order in which \<open>Object.entries\<close> and \<open>JSON.stringify\<close> visit them.
\<close>

datatype json =
    JNull | JBool bool | JNumber string | JString string
  | JArray "json list" | JObject "(string \<times> json) list"

definition json_ws :: "char \<Rightarrow> bool" where
  "json_ws c = (c = CHR '' '' \<or> c = CHR 0x09 \<or> c = CHR 0x0A \<or> c = CHR 0x0D)"

definition skip_ws :: "string \<Rightarrow> string" where
  "skip_ws s = dropWhile json_ws s"

text \<open>The UTF-8 bytes of a code unit given by a \<open>\<close>\<open>u\<close> escape.\<close>

definition utf8_of :: "nat \<Rightarrow> string" where
  "utf8_of n =
     (if n < 128 then [char_of n]
      else if n < 2048 then [char_of (192 + n div 64), char_of (128 + n mod 64)]
      else [char_of (224 + n div 4096), char_of (128 + (n div 64) mod 64), char_of (128 + n mod 64)])"

definition simple_escape :: "char \<Rightarrow> char option" where
  "simple_escape e =
     (if e = CHR 0x22 \<or> e = CHR 0x5C \<or> e = CHR ''/'' then Some e
      else if e = CHR ''b'' then Some (CHR 0x08)
      else if e = CHR ''f'' then Some (CHR 0x0C)
      else if e = CHR ''n'' then Some (CHR 0x0A)
      else if e = CHR ''r'' then Some (CHR 0x0D)
      else if e = CHR ''t'' then Some (CHR 0x09)
      else None)"

text \<open>Four hexadecimal digits: their value and the rest.\<close>

definition parse_hex4 :: "string \<Rightarrow> (nat \<times> string) option" where
  "parse_hex4 s =
     (case s of
        h1 # h2 # h3 # h4 # r \<Rightarrow>
          (case hex_digit h1 of None \<Rightarrow> None | Some a \<Rightarrow>
           case hex_digit h2 of None \<Rightarrow> None | Some b \<Rightarrow>
           case hex_digit h3 of None \<Rightarrow> None | Some c \<Rightarrow>
           case hex_digit h4 of None \<Rightarrow> None | Some d \<Rightarrow>
             Some (4096 * a + 256 * b + 16 * c + d, r))
      | _ \<Rightarrow> None)"

lemma parse_hex4_length: "parse_hex4 s = Some (n, r) \<Longrightarrow> length s = length r + 4"
  by (cases s; cases "tl s"; cases "tl (tl s)"; cases "tl (tl (tl s))")
     (auto simp: parse_hex4_def split: option.splits)

text \<open>The characters of a string after its opening quote, up to the closing quote.\<close>

function parse_string_chars :: "string \<Rightarrow> string \<Rightarrow> (string \<times> string) option" where
  "parse_string_chars [] acc = None"
| "parse_string_chars (c # s) acc =
     (if c = CHR 0x22 then Some (acc, s)
      else if c = CHR 0x5C then
        (case s of
           [] \<Rightarrow> None
         | e # s1 \<Rightarrow>
             if e = CHR ''u'' then
               (case parse_hex4 s1 of
                  Some (n, s2) \<Rightarrow> parse_string_chars s2 (acc @ utf8_of n)
                | None \<Rightarrow> None)
             else
               (case simple_escape e of
                  Some ch \<Rightarrow> parse_string_chars s1 (acc @ [ch])
                | None \<Rightarrow> None))
      else if is_control c then None
      else parse_string_chars s (acc @ [c]))"
  by pat_completeness auto
termination
  apply (relation "measure (\<lambda>(s, acc). length s)")
  apply (auto dest!: parse_hex4_length)
  done

declare parse_string_chars.simps [simp del]

text \<open>The text of a number at the head of a string, by the JSON grammar.\<close>

definition num_sign :: "string \<Rightarrow> string \<times> string" where
  "num_sign s = (case s of c # r \<Rightarrow> if c = CHR ''-'' then ([c], r) else ([], s) | [] \<Rightarrow> ([], s))"

definition num_frac :: "string \<Rightarrow> string \<times> string" where
  "num_frac s =
     (case s of
        c # r \<Rightarrow> if c = CHR ''.'' then (c # takeWhile is_digit r, dropWhile is_digit r) else ([], s)
      | [] \<Rightarrow> ([], s))"

definition num_exp :: "string \<Rightarrow> string \<times> string" where
  "num_exp s =
     (case s of
        c # r \<Rightarrow>
          if c = CHR ''e'' \<or> c = CHR ''E'' then
            (case r of
               x # r' \<Rightarrow>
                 if x = CHR ''+'' \<or> x = CHR ''-''
                 then (c # x # takeWhile is_digit r', dropWhile is_digit r')
                 else (c # takeWhile is_digit r, dropWhile is_digit r)
             | [] \<Rightarrow> ([c], []))
          else ([], s)
      | [] \<Rightarrow> ([], s))"

definition parse_number :: "string \<Rightarrow> (string \<times> string) option" where
  "parse_number s =
     (case num_sign s of
        (sg, s1) \<Rightarrow>
          (let ds = takeWhile is_digit s1
           in if ds = [] \<or> (hd ds = CHR ''0'' \<and> length ds > 1) then None
              else
                (case num_frac (dropWhile is_digit s1) of
                   (fraction, s3) \<Rightarrow>
                     if fraction = ''.'' then None
                     else
                       (case num_exp s3 of
                          (ex, s4) \<Rightarrow>
                            if ex \<noteq> [] \<and> \<not> is_digit (last ex) then None
                            else Some (sg @ ds @ fraction @ ex, s4)))))"

text \<open>
  The order of the properties of an object: array indices first, ascending, then the other
  keys in the order of their creation; defining a key again keeps its place.
\<close>

text \<open>Digit strings of equal length compare as their characters do.\<close>

fun digits_less :: "string \<Rightarrow> string \<Rightarrow> bool" where
  "digits_less (a # as) (b # bs) =
     ((a \<noteq> b \<and> char_le a b) \<or> (a = b \<and> digits_less as bs))"
| "digits_less as bs = False"

definition index_less :: "string \<Rightarrow> string \<Rightarrow> bool" where
  "index_less a b = (length a < length b \<or> (length a = length b \<and> digits_less a b))"

text \<open>An array index is a decimal numeral without leading zero, below \<open>2^32 - 1\<close>.\<close>

definition is_array_index :: "string \<Rightarrow> bool" where
  "is_array_index k =
     (k \<noteq> [] \<and> list_all is_digit k \<and> (k = ''0'' \<or> hd k \<noteq> CHR ''0'')
      \<and> index_less k ''4294967295'')"

fun insert_index :: "(string \<times> 'a) list \<Rightarrow> string \<Rightarrow> 'a \<Rightarrow> (string \<times> 'a) list" where
  "insert_index [] k v = [(k, v)]"
| "insert_index ((k', v') # kvs) k v =
     (if is_array_index k' \<and> index_less k' k
      then (k', v') # insert_index kvs k v
      else (k, v) # (k', v') # kvs)"

fun replace_key :: "(string \<times> 'a) list \<Rightarrow> string \<Rightarrow> 'a \<Rightarrow> (string \<times> 'a) list" where
  "replace_key [] k v = []"
| "replace_key ((k', v') # kvs) k v =
     (if k' = k then (k, v) # kvs else (k', v') # replace_key kvs k v)"

definition obj_put :: "(string \<times> 'a) list \<Rightarrow> string \<Rightarrow> 'a \<Rightarrow> (string \<times> 'a) list" where
  "obj_put kvs k v =
     (if k \<in> set (map fst kvs) then replace_key kvs k v
      else if is_array_index k then insert_index kvs k v
      else kvs @ [(k, v)])"

lemma skip_ws_le: "length (skip_ws s) \<le> length s"
  by (simp add: skip_ws_def length_dropWhile_le)

lemma skip_ws_Cons: "skip_ws s = c # r \<Longrightarrow> length r < length s"
  using skip_ws_le [of s] by simp

lemma utf8_of_length: "length (utf8_of n) \<le> 3"
  by (simp add: utf8_of_def)

lemma parse_string_chars_weight:
  "parse_string_chars s acc = Some (t, r) \<Longrightarrow> length t + length r + 1 \<le> length acc + length s"
proof (induction s acc rule: parse_string_chars.induct)
  case (1 acc)
  then show ?case by (simp add: parse_string_chars.simps)
next
  case (2 c s acc)
  show ?case
  proof (cases "c = CHR 0x22")
    case True
    with "2.prems" show ?thesis by (simp add: parse_string_chars.simps)
  next
    case nq: False
    show ?thesis
    proof (cases "c = CHR 0x5C")
      case True
      with nq "2.prems" obtain e s1 where s: "s = e # s1"
        by (cases s) (auto simp: parse_string_chars.simps)
      show ?thesis
      proof (cases "e = CHR ''u''")
        case eu: True
        with nq True s "2.prems" obtain n s2 where
          hx: "parse_hex4 s1 = Some (n, s2)"
          and rec: "parse_string_chars s2 (acc @ utf8_of n) = Some (t, r)"
          by (auto simp: parse_string_chars.simps split: option.splits)
        from "2.IH"(1) [OF nq True s eu hx refl rec]
        have "length t + length r + 1 \<le> length (acc @ utf8_of n) + length s2" .
        with utf8_of_length [of n] parse_hex4_length [OF hx] s show ?thesis by simp
      next
        case ne: False
        with nq True s "2.prems" obtain ch where
          ch: "simple_escape e = Some ch" and rec: "parse_string_chars s1 (acc @ [ch]) = Some (t, r)"
          by (auto simp: parse_string_chars.simps split: option.splits)
        from "2.IH"(2) [OF nq True s ne ch rec] s show ?thesis by simp
      qed
    next
      case False
      with nq "2.prems" have lo: "\<not> is_control c"
        and rec: "parse_string_chars s (acc @ [c]) = Some (t, r)"
        by (auto simp: parse_string_chars.simps split: if_splits)
      from "2.IH"(3) [OF nq False lo rec] show ?thesis by simp
    qed
  qed
qed

lemma parse_string_chars_shorter:
  "parse_string_chars s [] = Some (t, r) \<Longrightarrow> length r < length s"
  by (drule parse_string_chars_weight) simp

definition literal_prefix :: "string \<Rightarrow> (json \<times> string) option" where
  "literal_prefix s =
     (if take 4 s = ''true'' then Some (JBool True, drop 4 s)
      else if take 5 s = ''false'' then Some (JBool False, drop 5 s)
      else if take 4 s = ''null'' then Some (JNull, drop 4 s)
      else None)"

text \<open>
  The recursive descent. The length tests in the two loops always succeed (a value takes
  at least one character, lemma \<open>parse_value_weight\<close>); they carry the termination argument.
\<close>

function parse_value :: "string \<Rightarrow> (json \<times> string) option"
  and parse_elements :: "string \<Rightarrow> json list \<Rightarrow> (json list \<times> string) option"
  and parse_members :: "string \<Rightarrow> (string \<times> json) list \<Rightarrow> ((string \<times> json) list \<times> string) option"
where
  "parse_value s =
     (case skip_ws s of
        [] \<Rightarrow> None
      | c # r \<Rightarrow>
          if c = CHR 0x22 then
            (case parse_string_chars r [] of
               Some (t, r') \<Rightarrow> Some (JString t, r')
             | None \<Rightarrow> None)
          else if c = CHR ''['' then
            (case skip_ws r of
               [] \<Rightarrow> None
             | c' # r' \<Rightarrow>
                 if c' = CHR '']'' then Some (JArray [], r')
                 else (case parse_elements r [] of
                         Some (vs, r'') \<Rightarrow> Some (JArray vs, r'')
                       | None \<Rightarrow> None))
          else if c = CHR ''{'' then
            (case skip_ws r of
               [] \<Rightarrow> None
             | c' # r' \<Rightarrow>
                 if c' = CHR ''}'' then Some (JObject [], r')
                 else (case parse_members r [] of
                         Some (kvs, r'') \<Rightarrow> Some (JObject kvs, r'')
                       | None \<Rightarrow> None))
          else if c = CHR ''t'' \<or> c = CHR ''f'' \<or> c = CHR ''n'' then literal_prefix (c # r)
          else (case parse_number (c # r) of
                  Some (t, r') \<Rightarrow> Some (JNumber t, r')
                | None \<Rightarrow> None))"
| "parse_elements s acc =
     (case parse_value s of
        None \<Rightarrow> None
      | Some (v, r) \<Rightarrow>
          (case skip_ws r of
             [] \<Rightarrow> None
           | c # r' \<Rightarrow>
               if c = CHR '','' then
                 (if length r' < length s then parse_elements r' (acc @ [v]) else None)
               else if c = CHR '']'' then Some (acc @ [v], r')
               else None))"
| "parse_members s acc =
     (case skip_ws s of
        [] \<Rightarrow> None
      | q # r \<Rightarrow>
          if q \<noteq> CHR 0x22 then None
          else
            (case parse_string_chars r [] of
               None \<Rightarrow> None
             | Some (k, r1) \<Rightarrow>
                 (case skip_ws r1 of
                    [] \<Rightarrow> None
                  | c # r2 \<Rightarrow>
                      if c \<noteq> CHR '':'' then None
                      else
                        (case parse_value r2 of
                           None \<Rightarrow> None
                         | Some (v, r3) \<Rightarrow>
                             (case skip_ws r3 of
                                [] \<Rightarrow> None
                              | c' # r4 \<Rightarrow>
                                  if c' = CHR '','' then
                                    (if length r4 < length s
                                     then parse_members r4 (obj_put acc k v) else None)
                                  else if c' = CHR ''}'' then Some (obj_put acc k v, r4)
                                  else None)))))"
  by pat_completeness auto
termination
  apply (relation "measure (\<lambda>x. case x of Inl s \<Rightarrow> 2 * length s
                                | Inr (Inl (s, acc)) \<Rightarrow> 2 * length s + 1
                                | Inr (Inr (s, acc)) \<Rightarrow> 2 * length s + 1)")
  apply (auto dest!: skip_ws_Cons parse_string_chars_shorter)
  done

declare parse_value.simps [simp del] parse_elements.simps [simp del] parse_members.simps [simp del]

definition JSON_parse :: "string \<Rightarrow> json option" where
  "JSON_parse text =
     (case parse_value text of
        None \<Rightarrow> None
      | Some (v, r) \<Rightarrow> if skip_ws r = [] then Some v else None)"

text \<open>\<open>JSON.stringify\<close> of a value, without indentation.\<close>

definition hex_char :: "nat \<Rightarrow> char" where
  "hex_char n = (if n < 10 then char_of (48 + n) else char_of (87 + n))"

definition quote_char :: "char \<Rightarrow> string" where
  "quote_char c =
     (if c = CHR 0x22 then [CHR 0x5C, CHR 0x22]
      else if c = CHR 0x5C then [CHR 0x5C, CHR 0x5C]
      else if c = CHR 0x08 then [CHR 0x5C, CHR ''b'']
      else if c = CHR 0x0C then [CHR 0x5C, CHR ''f'']
      else if c = CHR 0x0A then [CHR 0x5C, CHR ''n'']
      else if c = CHR 0x0D then [CHR 0x5C, CHR ''r'']
      else if c = CHR 0x09 then [CHR 0x5C, CHR ''t'']
      else if is_control c then
        [CHR 0x5C, CHR ''u'', CHR ''0'', CHR ''0'', hex_char (of_char c div 16), hex_char (of_char c mod 16)]
      else [c])"

definition quote_string :: "string \<Rightarrow> string" where
  "quote_string t = [CHR 0x22] @ concat (map quote_char t) @ [CHR 0x22]"

fun join_with :: "string \<Rightarrow> string list \<Rightarrow> string" where
  "join_with sep [] = []"
| "join_with sep [x] = x"
| "join_with sep (x # xs) = x @ sep @ join_with sep xs"

fun JSON_stringify :: "json \<Rightarrow> string" where
  "JSON_stringify JNull = ''null''"
| "JSON_stringify (JBool b) = (if b then ''true'' else ''false'')"
| "JSON_stringify (JNumber t) = t"
| "JSON_stringify (JString t) = quote_string t"
| "JSON_stringify (JArray vs) = ''['' @ join_with '','' (map JSON_stringify vs) @ '']''"
| "JSON_stringify (JObject kvs) =
     ''{'' @ join_with '','' (map (\<lambda>(k, v). quote_string k @ '':'' @ JSON_stringify v) kvs) @ ''}''"

subsection \<open>The size of a parsed value\<close>

fun jweight :: "json \<Rightarrow> nat" where
  "jweight (JString t) = length t + 1"
| "jweight (JArray vs) = 1 + sum_list (map jweight vs)"
| "jweight (JObject kvs) = 1 + sum_list (map (\<lambda>(k, v). jweight v) kvs)"
| "jweight v = 1"

abbreviation wsum :: "(string \<times> json) list \<Rightarrow> nat" where
  "wsum kvs \<equiv> sum_list (map (\<lambda>(k, v). jweight v) kvs)"

lemma dropWhile_shorter: "takeWhile P xs \<noteq> [] \<Longrightarrow> length (dropWhile P xs) < length xs"
  by (induction xs) (auto simp: le_imp_less_Suc length_dropWhile_le split: if_splits)

lemma num_sign_le: "num_sign s = (t, r) \<Longrightarrow> length r \<le> length s"
  by (auto simp: num_sign_def split: list.splits if_splits)

lemma num_frac_le: "num_frac s = (t, r) \<Longrightarrow> length r \<le> length s"
  using length_dropWhile_le [of is_digit "tl s"]
  by (auto simp: num_frac_def split: list.splits if_splits)

lemma num_exp_le: "num_exp s = (t, r) \<Longrightarrow> length r \<le> length s"
  using length_dropWhile_le [of is_digit "tl s"] length_dropWhile_le [of is_digit "tl (tl s)"]
  by (auto simp: num_exp_def split: list.splits if_splits)

lemma parse_number_shorter:
  assumes "parse_number s = Some (t, r)"
  shows "length r < length s"
proof -
  obtain sg s1 where sg: "num_sign s = (sg, s1)" by (cases "num_sign s")
  obtain fraction s3 where fr: "num_frac (dropWhile is_digit s1) = (fraction, s3)"
    by (cases "num_frac (dropWhile is_digit s1)")
  obtain ex s4 where ex: "num_exp s3 = (ex, s4)" by (cases "num_exp s3")
  from assms sg fr ex have ds: "takeWhile is_digit s1 \<noteq> []" and r: "r = s4"
    by (auto simp: parse_number_def Let_def split: if_splits)
  from ds have "length (dropWhile is_digit s1) < length s1" by (rule dropWhile_shorter)
  with num_sign_le [OF sg] num_frac_le [OF fr] num_exp_le [OF ex] r show ?thesis by simp
qed

lemma literal_prefix_weight:
  "literal_prefix s = Some (v, r) \<Longrightarrow> jweight v + length r \<le> length s"
proof -
  have k: "take n s = t \<Longrightarrow> length t = n \<Longrightarrow> 0 < n \<Longrightarrow> Suc (length s - n) \<le> length s"
    for n t by (cases "n \<le> length s") auto
  assume "literal_prefix s = Some (v, r)"
  then show ?thesis
    using k [of 4 "''true''"] k [of 5 "''false''"] k [of 4 "''null''"]
    by (auto simp: literal_prefix_def split: if_splits)
qed

lemma insert_index_weight: "wsum (insert_index kvs k v) = wsum kvs + jweight v"
  by (induction kvs) auto

lemma replace_key_weight: "wsum (replace_key kvs k v) \<le> wsum kvs + jweight v"
  by (induction kvs) auto

lemma obj_put_weight: "wsum (obj_put kvs k v) \<le> wsum kvs + jweight v"
  by (simp add: obj_put_def insert_index_weight replace_key_weight)

abbreviation vsum :: "json list \<Rightarrow> nat" where
  "vsum vs \<equiv> sum_list (map jweight vs)"

lemma jweight_pos: "0 < jweight v"
  by (cases v) auto

lemma jweight_two: "Suc 0 < 2 * jweight v"
  using jweight_pos [of v] by simp

lemma parse_weight_aux:
  "(\<forall>s v r. 2 * length s \<le> m \<longrightarrow> parse_value s = Some (v, r) \<longrightarrow>
        jweight v + length r \<le> length s)
 \<and> (\<forall>s acc vs r. 2 * length s + 1 \<le> m \<longrightarrow> parse_elements s acc = Some (vs, r) \<longrightarrow>
        vsum vs + length r + 1 \<le> vsum acc + length s)
 \<and> (\<forall>s acc kvs r. 2 * length s + 1 \<le> m \<longrightarrow> parse_members s acc = Some (kvs, r) \<longrightarrow>
        wsum kvs + length r + 1 \<le> wsum acc + length s)"
proof (induction m rule: less_induct)
  case (less m)
  have IHv: "jweight v + length r \<le> length s"
    if "2 * length s < m" "parse_value s = Some (v, r)" for s v r
    using less.IH [of "2 * length s"] that by blast
  have IHe: "vsum vs + length r + 1 \<le> vsum acc + length s"
    if "2 * length s + 1 < m" "parse_elements s acc = Some (vs, r)" for s acc vs r
    using less.IH [of "2 * length s + 1"] that by blast
  have IHm: "wsum kvs + length r + 1 \<le> wsum acc + length s"
    if "2 * length s + 1 < m" "parse_members s acc = Some (kvs, r)" for s acc kvs r
    using less.IH [of "2 * length s + 1"] that by blast
  have val: "jweight v + length r \<le> length s"
    if m: "2 * length s \<le> m" and p: "parse_value s = Some (v, r)" for s v r
  proof -
    from p obtain c r0 where sk: "skip_ws s = c # r0"
      by (cases "skip_ws s") (auto simp: parse_value.simps)
    note l0 = skip_ws_Cons [OF sk]
    consider (str) "c = CHR 0x22" | (arr) "c \<noteq> CHR 0x22" "c = CHR ''[''"
      | (obj) "c \<noteq> CHR 0x22" "c \<noteq> CHR ''[''" "c = CHR ''{''"
      | (lit) "c \<noteq> CHR 0x22" "c \<noteq> CHR ''[''" "c \<noteq> CHR ''{''"
              "c = CHR ''t'' \<or> c = CHR ''f'' \<or> c = CHR ''n''"
      | (num) "c \<noteq> CHR 0x22" "c \<noteq> CHR ''[''" "c \<noteq> CHR ''{''"
              "\<not> (c = CHR ''t'' \<or> c = CHR ''f'' \<or> c = CHR ''n'')"
      by blast
    then show ?thesis
    proof cases
      case str
      with p sk obtain t where t: "parse_string_chars r0 [] = Some (t, r)" and v: "v = JString t"
        by (auto simp: parse_value.simps split: option.splits)
      from parse_string_chars_weight [OF t] l0 v show ?thesis by simp
    next
      case arr
      with p sk obtain c' r' where sk': "skip_ws r0 = c' # r'"
        by (cases "skip_ws r0") (auto simp: parse_value.simps)
      note l1 = skip_ws_Cons [OF sk']
      show ?thesis
      proof (cases "c' = CHR '']''")
        case True
        with p sk sk' arr have "v = JArray []" "r = r'" by (auto simp: parse_value.simps)
        with l0 l1 show ?thesis by simp
      next
        case False
        with p sk sk' arr obtain vs where e: "parse_elements r0 [] = Some (vs, r)" and v: "v = JArray vs"
          by (auto simp: parse_value.simps split: option.splits)
        have "2 * length r0 + 1 < m" using l0 m by simp
        from IHe [OF this e] l0 v show ?thesis by simp
      qed
    next
      case obj
      with p sk obtain c' r' where sk': "skip_ws r0 = c' # r'"
        by (cases "skip_ws r0") (auto simp: parse_value.simps)
      note l1 = skip_ws_Cons [OF sk']
      show ?thesis
      proof (cases "c' = CHR ''}''")
        case True
        with p sk sk' obj have "v = JObject []" "r = r'" by (auto simp: parse_value.simps)
        with l0 l1 show ?thesis by simp
      next
        case False
        with p sk sk' obj obtain kvs where e: "parse_members r0 [] = Some (kvs, r)" and v: "v = JObject kvs"
          by (auto simp: parse_value.simps split: option.splits)
        have "2 * length r0 + 1 < m" using l0 m by simp
        from IHm [OF this e] l0 v show ?thesis by simp
      qed
    next
      case lit
      with p sk have "literal_prefix (c # r0) = Some (v, r)"
        by (auto simp: parse_value.simps)
      from literal_prefix_weight [OF this] l0 show ?thesis by simp
    next
      case num
      with p sk obtain t where n: "parse_number (c # r0) = Some (t, r)" and v: "v = JNumber t"
        by (auto simp: parse_value.simps split: option.splits)
      from parse_number_shorter [OF n] l0 v show ?thesis by simp
    qed
  qed
  have elems: "vsum vs + length r + 1 \<le> vsum acc + length s"
    if m: "2 * length s + 1 \<le> m" and p: "parse_elements s acc = Some (vs, r)" for s acc vs r
  proof -
    from p obtain v r1 where pv: "parse_value s = Some (v, r1)"
      by (cases "parse_value s") (auto simp: parse_elements.simps)
    have "2 * length s \<le> m" using m by simp
    from val [OF this pv] have w: "jweight v + length r1 \<le> length s" .
    from p pv obtain c r' where sk: "skip_ws r1 = c # r'"
      by (cases "skip_ws r1") (auto simp: parse_elements.simps)
    note l = skip_ws_Cons [OF sk]
    show ?thesis
    proof (cases "c = CHR '',''")
      case True
      with p pv sk have lt: "length r' < length s"
        and rec: "parse_elements r' (acc @ [v]) = Some (vs, r)"
        by (auto simp: parse_elements.simps split: if_splits)
      have "2 * length r' + 1 < m" using lt m by simp
      from IHe [OF this rec] w l show ?thesis by simp
    next
      case False
      with p pv sk have "vs = acc @ [v]" "r = r'"
        by (auto simp: parse_elements.simps split: if_splits)
      with w l show ?thesis by simp
    qed
  qed
  have membs: "wsum kvs + length r + 1 \<le> wsum acc + length s"
    if m: "2 * length s + 1 \<le> m" and p: "parse_members s acc = Some (kvs, r)" for s acc kvs r
  proof -
    from p obtain q r0 where sk0: "skip_ws s = q # r0"
      by (cases "skip_ws s") (auto simp: parse_members.simps)
    note l0 = skip_ws_Cons [OF sk0]
    from p sk0 have q: "q = CHR 0x22" by (auto simp: parse_members.simps split: if_splits)
    from p sk0 q obtain k r1 where ps: "parse_string_chars r0 [] = Some (k, r1)"
      by (cases "parse_string_chars r0 []") (auto simp: parse_members.simps)
    note l1 = parse_string_chars_shorter [OF ps]
    from p sk0 q ps obtain c r2 where sk1: "skip_ws r1 = c # r2"
      by (cases "skip_ws r1") (auto simp: parse_members.simps)
    note l2 = skip_ws_Cons [OF sk1]
    from p sk0 q ps sk1 have c: "c = CHR '':''"
      by (auto simp: parse_members.simps split: if_splits)
    from p sk0 q ps sk1 c obtain v r3 where pv: "parse_value r2 = Some (v, r3)"
      by (cases "parse_value r2") (auto simp: parse_members.simps)
    have "2 * length r2 \<le> m" using l0 l1 l2 m by simp
    from val [OF this pv] have w: "jweight v + length r3 \<le> length r2" .
    from p sk0 q ps sk1 c pv obtain c' r4 where sk3: "skip_ws r3 = c' # r4"
      by (cases "skip_ws r3") (auto simp: parse_members.simps)
    note l3 = skip_ws_Cons [OF sk3]
    note pw = obj_put_weight [of acc k v]
    show ?thesis
    proof (cases "c' = CHR '',''")
      case True
      with p sk0 q ps sk1 c pv sk3 have lt: "length r4 < length s"
        and rec: "parse_members r4 (obj_put acc k v) = Some (kvs, r)"
        by (auto simp: parse_members.simps split: if_splits)
      have "2 * length r4 + 1 < m" using lt m by simp
      from IHm [OF this rec] w l0 l1 l2 l3 pw show ?thesis by simp
    next
      case False
      with p sk0 q ps sk1 c pv sk3 have "kvs = obj_put acc k v" "r = r4"
        by (auto simp: parse_members.simps split: if_splits)
      with w l0 l1 l2 l3 pw show ?thesis by simp
    qed
  qed
  from val elems membs show ?case by blast
qed

lemma parse_value_weight:
  "parse_value s = Some (v, r) \<Longrightarrow> jweight v + length r \<le> length s"
  using parse_weight_aux [of "2 * length s"] by blast

lemma JSON_parse_weight: "JSON_parse s = Some v \<Longrightarrow> jweight v \<le> length s"
  by (auto simp: JSON_parse_def split: option.splits if_splits dest!: parse_value_weight)

lemma js_trim_length: "length (js_trim s) \<le> length s"
proof -
  have "length (js_trim s) \<le> length (rev (dropWhile js_whitespace s))"
    unfolding js_trim_def using length_dropWhile_le [of js_whitespace "rev (dropWhile js_whitespace s)"]
    by simp
  also have "\<dots> \<le> length s" by (simp add: length_dropWhile_le)
  finally show ?thesis .
qed

subsection \<open>\<open>config.js\<close>\<close>

definition SENSITIVE_KEYS :: "string list" where
  "SENSITIVE_KEYS =
     [''password'', ''passwd'', ''pwd'', ''pass'', ''passphrase'',
      ''token'', ''access_token'', ''refresh_token'', ''auth_token'', ''api_token'',
      ''bearer_token'', ''authorization'', ''auth'', ''bearer'', ''oauth'', ''jwt'',
      ''cookie'', ''session'', ''sessionid'', ''jsessionid'', ''csrf_token'', ''xsrf_token'',
      ''secret'', ''key'', ''private_key'', ''public_key'', ''api_key'', ''app_key'',
      ''app_secret'', ''client_secret'', ''consumer_secret'', ''encryption_key'', ''decrypt_key'',
      ''credential'', ''credentials'', ''cred'', ''cert'', ''certificate'',
      ''signature'', ''sign'', ''hash'', ''salt'',
      ''pin'', ''code'', ''otp'', ''captcha'', ''verification_code'', ''verify_code'',
      ''db_password'', ''database_password'', ''mysql_password'', ''redis_password'',
      ''connection_string'', ''dsn'',
      ''cvv'', ''cvc'', ''security_code'', ''card_number'', ''account_number'',
      ''bank_account'', ''payment_method'']"

definition KV_SEPARATORS :: "string list" where
  "KV_SEPARATORS = [''='', '':'', ''=>'', ''->'']"

definition DEFAULT_MASK :: string where
  "DEFAULT_MASK = ''***''"

text \<open>
  The replacement of a pattern: a template string, a function of the match and its
  captures, absent, or of another type.
\<close>

datatype replacement =
  ReplTemplate string | ReplFunction "string \<Rightarrow> caps \<Rightarrow> string" | ReplUndefined | ReplInvalid

text \<open>A pattern of the catalog; its \<open>regex\<close> is given by source and flags.\<close>

record pattern =
  name :: string
  regex :: "(string \<times> string) option"
  replacement :: replacement
  enabled :: bool

definition backslash :: string where
  "backslash = [CHR 0x5C]"

text \<open>
  The entries of \<open>PATTERNS\<close> with \<open>enabled: true\<close>, in catalog order. The constructor keeps
  the enabled patterns only; the 43 entries that are disabled by default are left out.
\<close>

definition PATTERNS_enabled :: "pattern list" where
  "PATTERNS_enabled =
     [\<lparr>name = ''chinese_phone'',
       regex = Some (backslash @ ''b(1[3-9]'' @ backslash @ ''d)('' @ backslash @ ''d{4})('' @ backslash @ ''d{4})'' @ backslash @ ''b'', ''g''),
       replacement = ReplTemplate ''$1****$3'', enabled = True\<rparr>,
      \<lparr>name = ''email'',
       regex = Some (backslash @ ''b[A-Za-z0-9._%+-]+@[A-Za-z0-9.-]+'' @ backslash @ ''.[A-Za-z]{2,}'' @ backslash @ ''b'', ''g''),
       replacement = ReplTemplate ''***@***.***'', enabled = True\<rparr>,
      \<lparr>name = ''chinese_id_card'',
       regex = Some (backslash @ ''b('' @ backslash @ ''d{3})'' @ backslash @ ''d{6}(19|20)'' @ backslash @ ''d{2}(0[1-9]|1[0-2])(0[1-9]|[12]''
                      @ backslash @ ''d|3[01])'' @ backslash @ ''d{3}['' @ backslash @ ''dXx]'' @ backslash @ ''b'', ''g''),
       replacement = ReplTemplate ''$1***************'', enabled = True\<rparr>,
      \<lparr>name = ''jwt_token'',
       regex = Some (backslash @ ''b[A-Za-z0-9-_]+'' @ backslash @ ''.[A-Za-z0-9-_]+'' @ backslash @ ''.[A-Za-z0-9-_]+'' @ backslash @ ''b'', ''g''),
       replacement = ReplTemplate ''eyJ***.***.***.***'', enabled = True\<rparr>,
      \<lparr>name = ''base64_data'',
       regex = Some (backslash @ ''b[A-Za-z0-9+/]{20,}={0,2}'' @ backslash @ ''b'', ''g''),
       replacement = ReplTemplate ''base64EncodedData***'', enabled = True\<rparr>]"

subsection \<open>\<open>LogScrubber\<close>\<close>

definition js_toLowerCase :: "string \<Rightarrow> string" where
  "js_toLowerCase s = map toLower_char s"

text \<open>A \<open>Set\<close> built from an array keeps the first occurrence of each element, in order.\<close>

fun set_add_all :: "'a list \<Rightarrow> 'a list \<Rightarrow> 'a list" where
  "set_add_all acc [] = acc"
| "set_add_all acc (x # xs) = set_add_all (if x \<in> set acc then acc else acc @ [x]) xs"

definition Set_new :: "'a list \<Rightarrow> 'a list" where
  "Set_new xs = set_add_all [] xs"

record LogScrubber =
  enableMasking :: bool
  maskUrlParams :: bool
  sensitiveKeys :: "string list"
  patterns :: "pattern list"
  kvSeparators :: "string list"
  defaultMask :: string
  stats :: FileStats

text \<open>The options of the constructor; a field that is absent is \<open>None\<close>.\<close>

record scrubber_options =
  opt_enableMasking :: "bool option"
  opt_maskUrlParams :: "bool option"
  opt_sensitiveKeys :: "string list option"
  opt_patterns :: "pattern list option"
  opt_kvSeparators :: "string list option"
  opt_defaultMask :: "string option"

definition empty_stats :: FileStats where
  "empty_stats = \<lparr>totalLines = 0, maskedLines = 0, errors = 0, patternMatches = []\<rparr>"

definition LogScrubber_new :: "scrubber_options \<Rightarrow> LogScrubber" where
  "LogScrubber_new opts =
     \<lparr>enableMasking = (opt_enableMasking opts \<noteq> Some False),
      maskUrlParams = (opt_maskUrlParams opts \<noteq> Some False),
      sensitiveKeys =
        Set_new (map js_toLowerCase
          (case opt_sensitiveKeys opts of Some ks \<Rightarrow> ks | None \<Rightarrow> SENSITIVE_KEYS)),
      patterns =
        filter enabled (case opt_patterns opts of Some ps \<Rightarrow> ps | None \<Rightarrow> PATTERNS_enabled),
      kvSeparators = (case opt_kvSeparators opts of Some seps \<Rightarrow> seps | None \<Rightarrow> KV_SEPARATORS),
      defaultMask =
        (case opt_defaultMask opts of
           Some m \<Rightarrow> if m \<noteq> [] then m else DEFAULT_MASK
         | None \<Rightarrow> DEFAULT_MASK),
      stats = empty_stats\<rparr>"

definition no_options :: scrubber_options where
  "no_options =
     \<lparr>opt_enableMasking = None, opt_maskUrlParams = None, opt_sensitiveKeys = None,
      opt_patterns = None, opt_kvSeparators = None, opt_defaultMask = None\<rparr>"

definition resetStats :: "LogScrubber \<Rightarrow> LogScrubber" where
  "resetStats sc = sc\<lparr>stats := empty_stats\<rparr>"

text \<open>A capture passed to a replacement function, as a string.\<close>

definition cap_arg :: "caps \<Rightarrow> nat \<Rightarrow> string" where
  "cap_arg c k = (case c ! (k - 1) of None \<Rightarrow> ''undefined'' | Some t \<Rightarrow> t)"

definition has_match :: "regexp \<Rightarrow> string \<Rightarrow> bool" where
  "has_match rx s = list_ex is_match (regex_split rx None s 0)"

text \<open>
  The loop over the sensitive keys inside a string value of a JSON line: for each key the
  regular expression \<open>(key\s*[:=]\s*)([^\s\n\r,;&"']+)\<close> with the flags \<open>gi\<close>; every
  match is replaced by its first group followed by the mask.
\<close>

definition leaf_source :: "string \<Rightarrow> string" where
  "leaf_source key =
     ''('' @ key @ backslash @ ''s*[:=]'' @ backslash @ ''s*)([^'' @ backslash @ ''s'' @ backslash @ ''n'' @ backslash @ ''r,;&''
       @ [CHR 0x22, CHR 0x27] @ '']+)''"

fun mask_string_keys ::
  "string \<Rightarrow> string list \<Rightarrow> string \<Rightarrow> bool \<Rightarrow> js_error + (string \<times> bool)" where
  "mask_string_keys dm [] result changed = Inr (result, changed)"
| "mask_string_keys dm (key # keys) result changed =
     (case RegExp_new (leaf_source key) ''gi'' of
        Inl err \<Rightarrow> Inl err
      | Inr rx \<Rightarrow>
          mask_string_keys dm keys
            (js_replace rx (\<lambda>m c pos whole. cap_arg c 1 @ dm) result)
            (changed \<or> has_match rx result))"

record JsonLineResult =
  isJson :: bool
  json_masked :: string
  json_hasChanges :: bool

text \<open>\<open>maskedObj[k] = mv\<close>: an assignment to \<open>__proto__\<close> creates no property.\<close>

definition obj_assign :: "(string \<times> json) list \<Rightarrow> string \<Rightarrow> json \<Rightarrow> (string \<times> json) list" where
  "obj_assign kvs k v = (if k = ''__proto__'' then kvs else obj_put kvs k v)"

definition starts_with :: "string \<Rightarrow> char \<Rightarrow> bool" where
  "starts_with s c = (case s of x # xs \<Rightarrow> x = c | [] \<Rightarrow> False)"

text \<open>
  \<open>maskJsonLine\<close> and its inner function \<open>maskValue\<close>, with the loops of \<open>maskValue\<close> over
  the elements of an array and the entries of an object. The only statement that can
  throw is \<open>new RegExp\<close> in the string branch; the exception leaves \<open>maskJsonLine\<close>.

  For a sensitive key the source computes \<open>changed: value !== this.defaultMask\<close>, where
  \<open>value\<close> is the object being walked, not the property: an object is never identical to
  the mask string, so \<open>changed\<close> is true.
\<close>

function maskJsonLine :: "LogScrubber \<Rightarrow> string \<Rightarrow> js_error + JsonLineResult"
  and maskValue :: "LogScrubber \<Rightarrow> json \<Rightarrow> js_error + (json \<times> bool)"
  and maskArray :: "LogScrubber \<Rightarrow> json list \<Rightarrow> js_error + (json list \<times> bool)"
  and maskEntries ::
    "LogScrubber \<Rightarrow> (string \<times> json) list \<Rightarrow> (string \<times> json) list \<Rightarrow> bool
      \<Rightarrow> js_error + ((string \<times> json) list \<times> bool)"
where
  "maskJsonLine sc line =
     (let trimmed = js_trim line
      in if \<not> starts_with trimmed CHR ''{'' \<and> \<not> starts_with trimmed CHR ''[''
         then Inr \<lparr>isJson = False, json_masked = line, json_hasChanges = False\<rparr>
         else
           (case JSON_parse trimmed of
              None \<Rightarrow> Inr \<lparr>isJson = False, json_masked = line, json_hasChanges = False\<rparr>
            | Some parsed \<Rightarrow>
                (case maskValue sc parsed of
                   Inl err \<Rightarrow> Inl err
                 | Inr (maskedValue, changed) \<Rightarrow>
                     if \<not> changed
                     then Inr \<lparr>isJson = True, json_masked = line, json_hasChanges = False\<rparr>
                     else Inr \<lparr>isJson = True, json_masked = JSON_stringify maskedValue,
                               json_hasChanges = True\<rparr>)))"
| "maskValue sc (JString t) =
     (if t = defaultMask sc then Inr (JString t, False)
      else
        (case maskJsonLine sc t of
           Inl err \<Rightarrow> Inl err
         | Inr nestedResult \<Rightarrow>
             if isJson nestedResult
             then Inr (JString (json_masked nestedResult), json_hasChanges nestedResult)
             else
               (case mask_string_keys (defaultMask sc) (sensitiveKeys sc) t False of
                  Inl err \<Rightarrow> Inl err
                | Inr (result, changed) \<Rightarrow> Inr (JString (if changed then result else t), changed))))"
| "maskValue sc (JArray vs) =
     (case maskArray sc vs of
        Inl err \<Rightarrow> Inl err
      | Inr (mvs, arrChanged) \<Rightarrow> Inr (JArray mvs, arrChanged))"
| "maskValue sc (JObject kvs) =
     (case maskEntries sc kvs [] False of
        Inl err \<Rightarrow> Inl err
      | Inr (maskedObj, objChanged) \<Rightarrow> Inr (JObject maskedObj, objChanged))"
| "maskValue sc JNull = Inr (JNull, False)"
| "maskValue sc (JBool b) = Inr (JBool b, False)"
| "maskValue sc (JNumber t) = Inr (JNumber t, False)"
| "maskArray sc [] = Inr ([], False)"
| "maskArray sc (v # vs) =
     (case maskValue sc v of
        Inl err \<Rightarrow> Inl err
      | Inr (mv, c) \<Rightarrow>
          (case maskArray sc vs of
             Inl err \<Rightarrow> Inl err
           | Inr (mvs, cs) \<Rightarrow> Inr (mv # mvs, c \<or> cs)))"
| "maskEntries sc [] acc objChanged = Inr (acc, objChanged)"
| "maskEntries sc ((k, v) # kvs) acc objChanged =
     (if js_toLowerCase k \<in> set (sensitiveKeys sc)
      then maskEntries sc kvs (obj_assign acc k (JString (defaultMask sc))) True
      else
        (case maskValue sc v of
           Inl err \<Rightarrow> Inl err
         | Inr (mv, c) \<Rightarrow> maskEntries sc kvs (obj_assign acc k mv) (objChanged \<or> c)))"
  by pat_completeness auto
termination
proof (relation "measure (\<lambda>x. case x of
          Inl (Inl (sc, line)) \<Rightarrow> 2 * length line + 1
        | Inl (Inr (sc, v)) \<Rightarrow> 2 * jweight v
        | Inr (Inl (sc, vs)) \<Rightarrow> 2 * vsum vs + 1
        | Inr (Inr (sc, kvs, acc, ch)) \<Rightarrow> 2 * wsum kvs + 1)", goal_cases)
  case 1
  show ?case by simp
next
  case (2 sc line trimmed parsed)
  then show ?case
    using JSON_parse_weight [of trimmed parsed] js_trim_length [of line] by auto
qed (auto simp: jweight_pos)

declare maskJsonLine.simps [simp del]

declare maskValue.simps [simp del] maskArray.simps [simp del] maskEntries.simps [simp del]

text \<open>
  \<open>String(sep).replace(/[.*+?^${}()|[\]\\]/g, "\\$&")\<close>: a backslash before every
  character of that class.
\<close>

definition escape_separator :: "string \<Rightarrow> string" where
  "escape_separator sep =
     concat (map (\<lambda>c. if c \<in> set ''.*+?^${}()|[]'' \<or> c = CHR 0x5C then [CHR 0x5C, c] else [c]) sep)"

definition kv_source :: "string list \<Rightarrow> string" where
  "kv_source seps =
     ''('' @ backslash @ ''b['' @ backslash @ ''w.-]+)('' @ backslash @ ''s*(?:''
       @ join_with ''|'' (map escape_separator seps)
       @ '')'' @ backslash @ ''s*)([^'' @ backslash @ ''s'' @ backslash @ ''n'' @ backslash @ ''r]+)''"

text \<open>The replacement function of \<open>maskKeyValuePairs\<close>.\<close>

definition kv_replacer :: "LogScrubber \<Rightarrow> string \<Rightarrow> caps \<Rightarrow> nat \<Rightarrow> string \<Rightarrow> string" where
  "kv_replacer sc m c pos whole =
     (if js_toLowerCase (cap_arg c 1) \<in> set (sensitiveKeys sc)
      then cap_arg c 1 @ cap_arg c 2 @ defaultMask sc
      else m)"

fun kv_hit :: "LogScrubber \<Rightarrow> segment \<Rightarrow> bool" where
  "kv_hit sc (Lit x) = False"
| "kv_hit sc (Match pos m c) = (js_toLowerCase (cap_arg c 1) \<in> set (sensitiveKeys sc))"

definition maskKeyValuePairs :: "LogScrubber \<Rightarrow> string \<Rightarrow> js_error + (string \<times> bool)" where
  "maskKeyValuePairs sc line =
     (case RegExp_new (kv_source (kvSeparators sc)) ''gi'' of
        Inl err \<Rightarrow> Inl err
      | Inr kvRegex \<Rightarrow>
          Inr (js_replace kvRegex (kv_replacer sc) line,
               list_ex (kv_hit sc) (regex_split kvRegex None line 0)))"

definition keyword_source :: "string list \<Rightarrow> string" where
  "keyword_source keys =
     backslash @ ''b(?:'' @ join_with ''|'' keys @ '')'' @ backslash @ ''b'' @ backslash @ ''s*[:=]'' @ backslash
       @ ''s*([^'' @ backslash @ ''s'' @ backslash @ ''n'' @ backslash @ ''r,;&]+)''"

text \<open>
  \<open>maskSensitiveKeywords\<close>. A regular expression that does not compile is caught inside
  the function, which then returns the line as it is.
\<close>

definition maskSensitiveKeywords :: "LogScrubber \<Rightarrow> string \<Rightarrow> string \<times> bool" where
  "maskSensitiveKeywords sc line =
     (if sensitiveKeys sc = [] then (line, False)
      else
        (case RegExp_new (keyword_source (sensitiveKeys sc)) ''gi'' of
           Inl err \<Rightarrow> (line, False)
         | Inr keywordRegex \<Rightarrow>
             (js_replace keywordRegex
                (\<lambda>m c pos whole. js_replace_string m (cap_arg c 1) (defaultMask sc)) line,
              has_match keywordRegex line)))"

text \<open>
  The loop of \<open>maskPatterns\<close>. A pattern without a regular expression is skipped, and
  so is \<open>url_with_params\<close> when \<open>maskUrlParams\<close> is off; an exception of \<open>new RegExp\<close> is
  caught inside the loop.
\<close>

fun maskPatterns_loop ::
  "LogScrubber \<Rightarrow> pattern list \<Rightarrow> string \<Rightarrow> bool \<Rightarrow> (string \<times> nat) list
     \<Rightarrow> string \<times> bool \<times> (string \<times> nat) list" where
  "maskPatterns_loop sc [] text changed found = (text, changed, found)"
| "maskPatterns_loop sc (p # ps) text changed found =
     (case regex p of
        None \<Rightarrow> maskPatterns_loop sc ps text changed found
      | Some (source, flags) \<Rightarrow>
          if name p = ''url_with_params'' \<and> \<not> maskUrlParams sc
          then maskPatterns_loop sc ps text changed found
          else
            (case RegExp_new source flags of
               Inl err \<Rightarrow> maskPatterns_loop sc ps text changed found
             | Inr rx \<Rightarrow>
                 (let matchCount = js_match_length rx text
                  in if 0 < matchCount
                     then maskPatterns_loop sc ps
                            (case replacement p of
                               ReplFunction f \<Rightarrow> js_replace rx (\<lambda>m c pos whole. f m c) text
                             | ReplTemplate t \<Rightarrow>
                                 js_replace_template rx (if t \<noteq> [] then t else defaultMask sc) text
                             | ReplUndefined \<Rightarrow> js_replace_template rx (defaultMask sc) text
                             | ReplInvalid \<Rightarrow> js_replace_template rx (defaultMask sc) text)
                            True (obj_put found (name p) matchCount)
                     else maskPatterns_loop sc ps text changed found)))"

definition maskPatterns :: "LogScrubber \<Rightarrow> string \<Rightarrow> string \<times> bool \<times> (string \<times> nat) list" where
  "maskPatterns sc line = maskPatterns_loop sc (patterns sc) line False []"

record LineResult =
  original :: string
  masked :: string
  hasChanges :: bool
  matches :: "(string \<times> nat) list option"
  error :: "string option"

text \<open>The update of \<open>stats.patternMatches\<close> with the matches of a line.\<close>

fun add_matches :: "(string \<times> nat) list \<Rightarrow> (string \<times> nat) list \<Rightarrow> (string \<times> nat) list" where
  "add_matches pm [] = pm"
| "add_matches pm ((n, cnt) # rest) =
     add_matches (obj_put pm n ((case map_of pm n of Some k \<Rightarrow> k | None \<Rightarrow> 0) + cnt)) rest"

text \<open>The \<open>try\<close> block of \<open>processLine\<close>, after \<open>this.stats.totalLines++\<close>.\<close>

definition processLine_try :: "LogScrubber \<Rightarrow> string \<Rightarrow> js_error + (LineResult \<times> LogScrubber)" where
  "processLine_try sc line =
     (if \<not> enableMasking sc
      then Inr (\<lparr>original = line, masked = line, hasChanges = False, matches = Some [],
                 error = None\<rparr>, sc)
      else
        (case maskJsonLine sc line of
           Inl err \<Rightarrow> Inl err
         | Inr jsonResult \<Rightarrow>
             (case (if isJson jsonResult
                    then Inr (json_masked jsonResult, json_hasChanges jsonResult)
                    else (case maskKeyValuePairs sc line of
                            Inl err \<Rightarrow> Inl err
                          | Inr (kvMasked, kvChanges) \<Rightarrow>
                              (case maskSensitiveKeywords sc kvMasked of
                                 (kwMasked, kwChanges) \<Rightarrow>
                                   Inr (kwMasked, kvChanges \<or> kwChanges)))) of
                Inl err \<Rightarrow> Inl err
              | Inr (result, lineHasChanges) \<Rightarrow>
                  (case maskPatterns sc result of
                     (result', patternChanges, allMatches) \<Rightarrow>
                       Inr (\<lparr>original = line, masked = result',
                              hasChanges = (lineHasChanges \<or> patternChanges),
                              matches = Some allMatches, error = None\<rparr>,
                            sc\<lparr>stats := (stats sc)
                                 \<lparr>maskedLines := maskedLines (stats sc)
                                     + (if lineHasChanges \<or> patternChanges then 1 else 0),
                                  patternMatches := add_matches (patternMatches (stats sc)) allMatches\<rparr>\<rparr>)))))"

text \<open>
  \<open>processLine\<close>: the line is counted, and an exception of the \<open>try\<close> block is caught; the
  \<open>catch\<close> block counts an error and answers with the mask in place of the line.
\<close>

definition processLine :: "LogScrubber \<Rightarrow> string \<Rightarrow> LineResult \<times> LogScrubber" where
  "processLine sc line =
     (let counted = sc\<lparr>stats := (stats sc)\<lparr>totalLines := totalLines (stats sc) + 1\<rparr>\<rparr>
      in case processLine_try counted line of
           Inr done \<Rightarrow> done
         | Inl err \<Rightarrow>
             (\<lparr>original = line, masked = defaultMask counted, hasChanges = True, matches = None,
               error = Some (err_message err)\<rparr>,
              counted\<lparr>stats := (stats counted)\<lparr>errors := errors (stats counted) + 1\<rparr>\<rparr>))"

definition getStats :: "LogScrubber \<Rightarrow> FileStats" where
  "getStats sc = stats sc"

subsection \<open>The result of a file\<close>

record ProcessingResult =
  inputPath :: string
  outputPath :: "string option"
  success :: bool
  cancelled :: bool
  error :: "string option"
  stats :: "FileStats option"
  processingTime :: nat

subsection \<open>\<open>Semaphore\<close>\<close>

text \<open>
  A queue entry stands for the waiting task (its index in the batch) and records whether a
  signal was passed to \<open>acquire\<close>. The signal itself is shared by the whole batch.
\<close>

record sem_entry =
  entry_task :: nat
  entry_signal :: bool

record semaphore =
  sem_max :: int
  current :: int
  queue :: "sem_entry list"

definition Semaphore_new :: "int \<Rightarrow> semaphore" where
  "Semaphore_new m = \<lparr>sem_max = m, current = 0, queue = []\<rparr>"

datatype acquire_result = Acquired | AcquireRejected js_error | AcquireQueued

definition acquire :: "abort_signal option \<Rightarrow> nat \<Rightarrow> semaphore \<Rightarrow> acquire_result \<times> semaphore" where
  "acquire sg task s =
     (if signal_aborted sg then (AcquireRejected (createAbortError msg_processing_cancelled), s)
      else if current s < sem_max s then (Acquired, s\<lparr>current := current s + 1\<rparr>)
      else (AcquireQueued,
            s\<lparr>queue := queue s @ [\<lparr>entry_task = task, entry_signal = (sg \<noteq> None)\<rparr>]\<rparr>))"

text \<open>
  The \<open>while\<close> loop of \<open>release\<close>: entries whose signal has aborted are rejected and
  skipped, the first other entry is granted the slot. The result is the rejected entries,
  the granted entry if any, the rest of the queue and the new count.
\<close>

fun release_loop ::
  "bool \<Rightarrow> sem_entry list \<Rightarrow> int \<Rightarrow> sem_entry list \<times> sem_entry option \<times> sem_entry list \<times> int" where
  "release_loop ab [] cur = ([], None, [], cur)"
| "release_loop ab (e # q) cur =
     (if entry_signal e \<and> ab
      then (case release_loop ab q cur of (rej, g, q', cur') \<Rightarrow> (e # rej, g, q', cur'))
      else ([], Some e, q, cur + 1))"

definition release ::
  "abort_signal option \<Rightarrow> semaphore \<Rightarrow> (sem_entry list \<times> sem_entry option) \<times> semaphore" where
  "release sg s =
     (case release_loop (signal_aborted sg) (queue s) (current s - 1) of
        (rej, g, q', cur') \<Rightarrow> ((rej, g), s\<lparr>current := cur', queue := q'\<rparr>))"

text \<open>
  The \<open>onAbort\<close> listeners of the queued entries: when the signal aborts, every entry that
  registered one removes itself from the queue and rejects its promise.
\<close>

definition abort_listeners :: "semaphore \<Rightarrow> sem_entry list \<times> semaphore" where
  "abort_listeners s =
     (filter entry_signal (queue s), s\<lparr>queue := filter (\<lambda>e. \<not> entry_signal e) (queue s)\<rparr>)"

subsection \<open>\<open>FileProcessor.processFiles\<close>\<close>

text \<open>
  One task per input path. A task waits in the semaphore's queue, runs \<open>processFile\<close>, or
  has settled (its result is pushed). The batch is driven by the events that reach it:
  the \<open>processFile\<close> call of a running task settles, or the signal aborts.
\<close>

datatype task_state = NotStarted | Queued | Running | Settled

datatype file_outcome = Returned ProcessingResult | Threw js_error

datatype batch_event = Settle nat file_outcome | SignalAbort abort_reason

record batch =
  sem :: semaphore
  tasks :: "task_state list"
  results :: "ProcessingResult list"
  signal :: "abort_signal option"

definition cancelled_result :: "string \<Rightarrow> ProcessingResult" where
  "cancelled_result p =
     \<lparr>inputPath = p, outputPath = None, success = False, cancelled = True,
      error = Some msg_cancelled, stats = None, processingTime = 0\<rparr>"

definition failed_result :: "string \<Rightarrow> string \<Rightarrow> ProcessingResult" where
  "failed_result p m =
     \<lparr>inputPath = p, outputPath = None, success = False, cancelled = False,
      error = Some m, stats = None, processingTime = 0\<rparr>"

text \<open>The \<open>catch\<close> block of a task.\<close>

definition task_catch :: "abort_signal option \<Rightarrow> string \<Rightarrow> js_error \<Rightarrow> ProcessingResult" where
  "task_catch sg p e =
     (if isAbortError e \<or> signal_aborted sg then cancelled_result p
      else failed_result p (error_text e))"

definition push_settled :: "string list \<Rightarrow> batch \<Rightarrow> nat \<Rightarrow> ProcessingResult \<Rightarrow> batch" where
  "push_settled paths b i r = b\<lparr>results := results b @ [r], tasks := (tasks b)[i := Settled]\<rparr>"

text \<open>The tasks whose \<open>acquire\<close> was rejected push a cancelled result; they hold no slot.\<close>

fun reject_entries :: "string list \<Rightarrow> batch \<Rightarrow> sem_entry list \<Rightarrow> batch" where
  "reject_entries paths b [] = b"
| "reject_entries paths b (e # es) =
     reject_entries paths
       (push_settled paths b (entry_task e)
          (task_catch (signal b) (paths ! entry_task e)
             (createAbortError msg_processing_cancelled)))
       es"


lemma release_loop_shorter:
  "release_loop ab q cur = (rej, Some e, q', cur') \<Longrightarrow> length q' < length q"
  by (induction q arbitrary: rej) (auto split: if_splits prod.splits)

lemma reject_entries_sem [simp]: "sem (reject_entries paths b es) = sem b"
  by (induction es arbitrary: b) (simp_all add: push_settled_def)

text \<open>
  The \<open>finally\<close> block of a task that held a slot calls \<open>release\<close>. The tasks rejected by
  the loop settle as cancelled; the granted task resumes after its \<open>await\<close>, sets
  \<open>acquired\<close>, and checks the signal: when that check throws, it settles as cancelled and
  releases in turn.
\<close>

function after_release :: "string list \<Rightarrow> batch \<Rightarrow> batch" where
  "after_release paths b =
     (case release (signal b) (sem b) of
        ((rej, g), s') \<Rightarrow>
          (let b1 = reject_entries paths (b\<lparr>sem := s'\<rparr>) rej
           in case g of
                None \<Rightarrow> b1
              | Some e \<Rightarrow>
                  (case throwIfAborted (signal b1) of
                     Inr u \<Rightarrow> b1\<lparr>tasks := (tasks b1)[entry_task e := Running]\<rparr>
                   | Inl err \<Rightarrow>
                       after_release paths
                         (push_settled paths b1 (entry_task e)
                            (task_catch (signal b1) (paths ! entry_task e) err)))))"
  by pat_completeness auto
termination
  apply (relation "measure (\<lambda>(paths, b). length (queue (sem b)))")
   apply simp
  apply (auto simp: release_def push_settled_def split: prod.splits dest: release_loop_shorter)
  done

declare after_release.simps [simp del]

text \<open>
  The start of a task, up to its first suspension: \<open>await semaphore.acquire(signal)\<close>,
  then \<open>acquired = true\<close> and \<open>throwIfAborted(signal)\<close>.
\<close>

definition start_task :: "string list \<Rightarrow> batch \<Rightarrow> nat \<Rightarrow> batch" where
  "start_task paths b i =
     (case acquire (signal b) i (sem b) of
        (AcquireRejected err, s') \<Rightarrow>
          push_settled paths (b\<lparr>sem := s'\<rparr>) i (task_catch (signal b) (paths ! i) err)
      | (AcquireQueued, s') \<Rightarrow> b\<lparr>sem := s', tasks := (tasks b)[i := Queued]\<rparr>
      | (Acquired, s') \<Rightarrow>
          (case throwIfAborted (signal b) of
             Inr u \<Rightarrow> b\<lparr>sem := s', tasks := (tasks b)[i := Running]\<rparr>
           | Inl err \<Rightarrow>
               after_release paths
                 (push_settled paths (b\<lparr>sem := s'\<rparr>) i (task_catch (signal b) (paths ! i) err))))"

text \<open>\<open>inputPaths.map(async ...)\<close> starts the tasks in input order.\<close>

definition processFiles_start :: "int \<Rightarrow> abort_signal option \<Rightarrow> string list \<Rightarrow> batch" where
  "processFiles_start concurrency sg paths =
     foldl (start_task paths)
       \<lparr>sem = Semaphore_new concurrency, tasks = replicate (length paths) NotStarted,
        results = [], signal = sg\<rparr>
       [0..<length paths]"

text \<open>
  One event. When the \<open>processFile\<close> call of a running task settles, the task pushes the
  returned result, or the result its \<open>catch\<close> block builds, and releases its slot. When the
  signal aborts, the queued acquisitions are rejected at once. Events that cannot occur in
  the state (a task that is not running, a second abort, an abort without a signal) leave
  it unchanged.
\<close>

fun batch_step :: "string list \<Rightarrow> batch \<Rightarrow> batch_event \<Rightarrow> batch" where
  "batch_step paths b (Settle i out) =
     (if i < length (tasks b) \<and> tasks b ! i = Running
      then after_release paths
             (push_settled paths b i
                (case out of Returned r \<Rightarrow> r | Threw err \<Rightarrow> task_catch (signal b) (paths ! i) err))
      else b)"
| "batch_step paths b (SignalAbort r) =
     (case signal b of
        None \<Rightarrow> b
      | Some g \<Rightarrow>
          if aborted g then b
          else (case abort_listeners (sem b) of
                  (rej, s') \<Rightarrow>
                    reject_entries paths
                      (b\<lparr>signal := Some (g\<lparr>aborted := True, reason := r\<rparr>), sem := s'\<rparr>) rej))"

definition batch_run :: "string list \<Rightarrow> batch \<Rightarrow> batch_event list \<Rightarrow> batch" where
  "batch_run paths b evs = foldl (batch_step paths) b evs"

text \<open>
  \<open>await Promise.all(processPromises); return results\<close>: the call returns the \<open>results\<close>
  array, in the order of the pushes, once every task has settled; until then it is pending.
\<close>

definition processFiles ::
  "int \<Rightarrow> abort_signal option \<Rightarrow> string list \<Rightarrow> batch_event list \<Rightarrow> ProcessingResult list option" where
  "processFiles concurrency sg paths evs =
     (let b = batch_run paths (processFiles_start concurrency sg paths) evs
      in if list_all (\<lambda>t. t = Settled) (tasks b) then Some (results b) else None)"

definition running_tasks :: "batch \<Rightarrow> nat" where
  "running_tasks b = length (filter (\<lambda>t. t = Running) (tasks b))"

definition queued_tasks :: "batch \<Rightarrow> nat list" where
  "queued_tasks b = filter (\<lambda>i. tasks b ! i = Queued) [0..<length (tasks b)]"

subsection \<open>The batch handler of \<open>main.js\<close>\<close>

text \<open>
  \<open>indexByPath\<close> is a \<open>Map\<close> built from the pairs of path and index: a path that occurs
  twice keeps its last index. The handler sorts the results of \<open>processFiles\<close> by that index
  (0 for a path the map does not know); \<open>Array.prototype.sort\<close> is stable.
\<close>

definition indexByPath :: "string list \<Rightarrow> string \<Rightarrow> nat option" where
  "indexByPath paths = map_of (rev (zip paths [0..<length paths]))"

definition sort_by_input :: "string list \<Rightarrow> ProcessingResult list \<Rightarrow> ProcessingResult list" where
  "sort_by_input paths rs =
     sort_key (\<lambda>r. case indexByPath paths (inputPath r) of Some i \<Rightarrow> i | None \<Rightarrow> 0) rs"


text \<open>
  A result returned by \<open>processFile\<close> carries the path it was called with; an event of the
  batch is tagged when it respects this.
\<close>

definition event_tagged :: "string list \<Rightarrow> batch_event \<Rightarrow> bool" where
  "event_tagged paths ev =
     (case ev of Settle i (Returned r) \<Rightarrow> inputPath r = paths ! i | _ \<Rightarrow> True)"


text \<open>
  The invariant of the batch. \<open>extra\<close> is 1 between the push of a result and the
  \<open>release\<close> that follows it; \<open>pend\<close> are the entries taken from the queue whose tasks have
  not resumed yet; \<open>S\<close> is a set of tasks known to have settled.
\<close>

definition binv :: "nat set \<Rightarrow> bool \<Rightarrow> string list \<Rightarrow> int \<Rightarrow> int \<Rightarrow> sem_entry list \<Rightarrow> batch \<Rightarrow> bool" where
  "binv S tg paths N extra pend b \<longleftrightarrow>
     length (tasks b) = length paths
   \<and> sem_max (sem b) = N
   \<and> current (sem b) = int (running_tasks b) + extra
   \<and> current (sem b) \<le> max N 0
   \<and> (\<forall>j\<in>S. tasks b ! j = Settled)
   \<and> queued_tasks b = map entry_task pend @ map entry_task (queue (sem b))
   \<and> list_all (\<lambda>e. entry_signal e = (signal b \<noteq> None)) (pend @ queue (sem b))
   \<and> (tg \<longrightarrow> mset (map inputPath (results b))
       = image_mset (nth paths) (mset (filter (\<lambda>i. tasks b ! i = Settled) [0..<length paths])))"


section \<open>Properties\<close>

subsection \<open>The binary check\<close>

lemma null_byte_loop_iff: "null_byte_loop bs \<longleftrightarrow> 0 \<in> set bs"
  by (induction bs) auto

lemma nonPrintable_loop_count:
  "nonPrintable_loop bs n = n + length (filter control_byte bs)"
  by (induction bs arbitrary: n) (auto simp: control_byte_def)

text \<open>
  C8, as amended. The check reads only the first 512 bytes, and a readable file is binary
  exactly when one of those bytes is null or more than 30 percent of them are control
  bytes below 32 other than tab, LF and CR. Bytes from 127 to 255 count as text.
\<close>

theorem C8_isBinaryFile_control_bytes:
  "isBinaryBytes bytes =
     (0 \<in> set (take 512 bytes) \<or>
      3 * length (take 512 bytes) < 10 * length (filter control_byte (take 512 bytes)))
   \<and> isBinaryBytes bytes = isBinaryBytes (take 512 bytes)
   \<and> isBinaryFile (fs(p \<mapsto> RegularFile True bytes)) p = isBinaryBytes bytes"
proof -
  have cmp: "(real k / real n > 3 / 10) = (3 * n < 10 * k)" if "k \<le> n" for k n :: nat
  proof (cases "n = 0")
    case True
    with that show ?thesis by simp
  next
    case False
    then have "(3 / 10 < real k / real n) = (3 * real n < 10 * real k)"
      by (simp add: field_simps)
    also have "\<dots> = (real (3 * n) < real (10 * k))" by simp
    also have "\<dots> = (3 * n < 10 * k)" by (simp only: of_nat_less_iff)
    finally show ?thesis .
  qed
  have a: "isBinaryBytes bs =
     (0 \<in> set (take 512 bs) \<or>
      3 * length (take 512 bs) < 10 * length (filter control_byte (take 512 bs)))" for bs
  proof -
    let ?buf = "take 512 bs"
    have "length (filter control_byte ?buf) \<le> length ?buf"
      by (rule length_filter_le)
    from cmp [OF this] show ?thesis
      unfolding isBinaryBytes_def readSync512_def Let_def
      by (simp only: null_byte_loop_iff nonPrintable_loop_count add_0 if_bool_eq_disj) blast
  qed
  have b: "isBinaryBytes bytes = isBinaryBytes (take 512 bytes)"
    by (simp add: a)
  have c: "isBinaryFile (fs(p \<mapsto> RegularFile True bytes)) p = isBinaryBytes bytes"
    by (simp add: isBinaryFile_def)
  from a b c show ?thesis by blast
qed

text \<open>
  C8 as stated fails: a file holding the single byte 255 lies wholly outside printable
  ASCII, tab, LF and CR, yet the code does not call it binary.
\<close>

theorem C8_counterexample:
  "spec_isBinary [255] \<and> \<not> isBinaryBytes [255]"
  by (simp add: spec_isBinary_def spec_printable_def isBinaryBytes_def readSync512_def)

subsection \<open>The semaphore and the batch\<close>


lemma count_update:
  "i < length ts \<Longrightarrow>
   length (filter P (ts[i := v])) + (if P (ts ! i) then 1 else 0)
     = length (filter P ts) + (if P v then 1 else 0)"
proof (induction ts arbitrary: i)
  case Nil
  then show ?case by simp
next
  case (Cons t ts)
  show ?case
  proof (cases i)
    case 0
    then show ?thesis by simp
  next
    case (Suc k)
    with Cons.prems have "k < length ts" by simp
    from Cons.IH [OF this] Suc show ?thesis by simp
  qed
qed

lemma running_update_other:
  "i < length ts \<Longrightarrow> ts ! i \<noteq> Running \<Longrightarrow> v \<noteq> Running \<Longrightarrow>
   length (filter (\<lambda>t. t = Running) (ts[i := v])) = length (filter (\<lambda>t. t = Running) ts)"
  using count_update [of i ts "\<lambda>t. t = Running" v] by simp

lemma running_update_start:
  "i < length ts \<Longrightarrow> ts ! i \<noteq> Running \<Longrightarrow>
   length (filter (\<lambda>t. t = Running) (ts[i := Running])) = length (filter (\<lambda>t. t = Running) ts) + 1"
  using count_update [of i ts "\<lambda>t. t = Running" Running] by simp

lemma running_update_stop:
  "i < length ts \<Longrightarrow> ts ! i = Running \<Longrightarrow> v \<noteq> Running \<Longrightarrow>
   length (filter (\<lambda>t. t = Running) (ts[i := v])) + 1 = length (filter (\<lambda>t. t = Running) ts)"
  using count_update [of i ts "\<lambda>t. t = Running" v] by simp

lemma filter_neq_id: "i \<notin> set xs \<Longrightarrow> filter (\<lambda>j. j \<noteq> i) xs = xs"
  by (induction xs) auto

lemma queued_update_leave:
  "i < length ts \<Longrightarrow> v \<noteq> Queued \<Longrightarrow>
   filter (\<lambda>j. ts[i := v] ! j = Queued) [0..<length ts]
     = filter (\<lambda>j. j \<noteq> i) (filter (\<lambda>j. ts ! j = Queued) [0..<length ts])"
  by (auto simp: filter_filter nth_list_update intro!: filter_cong)

lemma queued_update_nonqueued:
  "i < length ts \<Longrightarrow> ts ! i \<noteq> Queued \<Longrightarrow> v \<noteq> Queued \<Longrightarrow>
   filter (\<lambda>j. ts[i := v] ! j = Queued) [0..<length ts]
     = filter (\<lambda>j. ts ! j = Queued) [0..<length ts]"
  by (auto simp: nth_list_update intro!: filter_cong)

lemma queued_update_enter:
  assumes "i < length ts" and "\<forall>j. i \<le> j \<and> j < length ts \<longrightarrow> ts ! j \<noteq> Queued"
  shows "filter (\<lambda>j. ts[i := Queued] ! j = Queued) [0..<length ts]
     = filter (\<lambda>j. ts ! j = Queued) [0..<length ts] @ [i]"
proof -
  have split: "[0..<length ts] = [0..<i] @ [i] @ [Suc i..<length ts]"
    using assms(1) by (metis append_Cons append_Nil le0 le_add_diff_inverse less_imp_le_nat upt_add_eq_append upt_conv_Cons)
  have a: "filter (\<lambda>j. ts[i := Queued] ! j = Queued) [0..<i] = filter (\<lambda>j. ts ! j = Queued) [0..<i]"
    by (auto intro!: filter_cong)
  have b: "filter (\<lambda>j. ts[i := Queued] ! j = Queued) [Suc i..<length ts] = []"
    using assms(2) by (auto simp: filter_empty_conv)
  have c: "filter (\<lambda>j. ts ! j = Queued) [Suc i..<length ts] = []"
    using assms(2) by (auto simp: filter_empty_conv)
  have d: "ts ! i \<noteq> Queued" using assms by auto
  have "filter (\<lambda>j. ts[i := Queued] ! j = Queued) [0..<length ts]
      = filter (\<lambda>j. ts[i := Queued] ! j = Queued) ([0..<i] @ [i] @ [Suc i..<length ts])"
    using split by simp
  also have "\<dots> = filter (\<lambda>j. ts ! j = Queued) [0..<i] @ [i]"
    using assms(1) by (simp add: a b)
  also have "\<dots> = filter (\<lambda>j. ts ! j = Queued) ([0..<i] @ [i] @ [Suc i..<length ts]) @ [i]"
    using d by (simp add: c)
  also have "\<dots> = filter (\<lambda>j. ts ! j = Queued) [0..<length ts] @ [i]"
    using split by simp
  finally show ?thesis .
qed

lemma inputPath_task_catch [simp]: "inputPath (task_catch sg p e) = p"
  by (simp add: task_catch_def cancelled_result_def failed_result_def)

lemma settled_update_new:
  assumes "i < length ts" "ts ! i \<noteq> Settled"
  shows "mset (filter (\<lambda>j. ts[i := Settled] ! j = Settled) [0..<length ts])
     = add_mset i (mset (filter (\<lambda>j. ts ! j = Settled) [0..<length ts]))"
proof -
  let ?new = "filter (\<lambda>j. ts[i := Settled] ! j = Settled) [0..<length ts]"
  let ?old = "filter (\<lambda>j. ts ! j = Settled) [0..<length ts]"
  have "distinct ?new" and "distinct (i # ?old)"
    using assms by simp_all
  moreover have "set ?new = set (i # ?old)"
    using assms by (auto simp: nth_list_update)
  ultimately have "mset ?new = mset (i # ?old)"
    by (simp only: set_eq_iff_mset_eq_distinct)
  then show ?thesis by simp
qed

lemma settled_update_other:
  "i < length ts \<Longrightarrow> ts ! i \<noteq> Settled \<Longrightarrow> v \<noteq> Settled \<Longrightarrow>
   filter (\<lambda>j. ts[i := v] ! j = Settled) [0..<length ts]
     = filter (\<lambda>j. ts ! j = Settled) [0..<length ts]"
  by (auto simp: nth_list_update intro!: filter_cong)

lemma queued_head:
  assumes "queued_tasks b = i # rest"
  shows "i < length (tasks b)" "tasks b ! i = Queued" "i \<notin> set rest"
proof -
  have "i \<in> set (queued_tasks b)" using assms by simp
  then show "i < length (tasks b)" "tasks b ! i = Queued"
    by (auto simp: queued_tasks_def)
  have "distinct (queued_tasks b)" by (simp add: queued_tasks_def)
  with assms show "i \<notin> set rest" by simp
qed

lemma binv_settle_queued:
  assumes inv: "binv S tg paths N x (e # pend) b" and r: "tg \<longrightarrow> inputPath r = paths ! entry_task e"
  shows "binv S tg paths N x pend (push_settled paths b (entry_task e) r)"
proof -
  let ?i = "entry_task e"
  from inv have q: "queued_tasks b = ?i # (map entry_task pend @ map entry_task (queue (sem b)))"
    by (simp add: binv_def)
  note h = queued_head [OF q]
  from inv have len: "length (tasks b) = length paths" by (simp add: binv_def)
  have q': "queued_tasks (push_settled paths b ?i r) = map entry_task pend @ map entry_task (queue (sem b))"
  proof -
    have "queued_tasks (push_settled paths b ?i r) = filter (\<lambda>j. j \<noteq> ?i) (queued_tasks b)"
      using h(1) by (simp add: queued_tasks_def push_settled_def queued_update_leave)
    also have "\<dots> = map entry_task pend @ map entry_task (queue (sem b))"
    proof -
      have "filter (\<lambda>j. j \<noteq> ?i) xs = xs" if "?i \<notin> set xs" for xs
        using that by (induction xs) auto
      from this [OF h(3)] show ?thesis by (subst q) simp
    qed
    finally show ?thesis .
  qed
  have run: "running_tasks (push_settled paths b ?i r) = running_tasks b"
    using running_update_other [of ?i "tasks b" Settled] h
    by (simp add: push_settled_def running_tasks_def)
  have res: "tg \<longrightarrow> mset (map inputPath (results (push_settled paths b ?i r)))
       = image_mset (nth paths)
          (mset (filter (\<lambda>j. tasks (push_settled paths b ?i r) ! j = Settled) [0..<length paths]))"
    using inv h r settled_update_new [of ?i "tasks b"] len
    by (simp add: binv_def push_settled_def)
  have st: "\<forall>j\<in>S. (tasks b)[?i := Settled] ! j = Settled"
    using inv h by (auto simp: binv_def nth_list_update)
  from inv q' run res st show ?thesis
    by (simp add: binv_def push_settled_def)
qed

lemma binv_reject_entries:
  "binv S tg paths N x (rej @ pend) b \<Longrightarrow> binv S tg paths N x pend (reject_entries paths b rej)"
proof (induction rej arbitrary: b)
  case Nil
  then show ?case by simp
next
  case (Cons e rej)
  from Cons.prems have "binv S tg paths N x (e # (rej @ pend)) b" by simp
  then have "binv S tg paths N x (rej @ pend)
      (push_settled paths b (entry_task e)
        (task_catch (signal b) (paths ! entry_task e) (createAbortError msg_processing_cancelled)))"
    by (rule binv_settle_queued) simp
  from Cons.IH [OF this] show ?case by simp
qed


lemma release_loop_spec:
  "release_loop ab q cur = (rej, g, q', cur') \<Longrightarrow>
     (case g of
        None \<Rightarrow> q = rej \<and> q' = [] \<and> cur' = cur
      | Some e \<Rightarrow> q = rej @ e # q' \<and> cur' = cur + 1 \<and> \<not> (entry_signal e \<and> ab))"
proof (induction q arbitrary: rej)
  case Nil
  then show ?case by simp
next
  case (Cons a q)
  show ?case
  proof (cases "entry_signal a \<and> ab")
    case True
    with Cons.prems obtain rej0 where
      r: "release_loop ab q cur = (rej0, g, q', cur')" and rej: "rej = a # rej0"
      by (auto split: prod.splits)
    from Cons.IH [OF r] rej show ?thesis by (cases g) auto
  next
    case False
    with Cons.prems show ?thesis by auto
  qed
qed

lemma binv_grant:
  assumes inv: "binv S tg paths N 1 [e] b"
  shows "binv S tg paths N 0 [] (b\<lparr>tasks := (tasks b)[entry_task e := Running]\<rparr>)"
proof -
  let ?i = "entry_task e"
  from inv have q: "queued_tasks b = ?i # (map entry_task [] @ map entry_task (queue (sem b)))"
    by (simp add: binv_def)
  note h = queued_head [OF q]
  from inv have len: "length (tasks b) = length paths" by (simp add: binv_def)
  have "queued_tasks (b\<lparr>tasks := (tasks b)[?i := Running]\<rparr>) = filter (\<lambda>j. j \<noteq> ?i) (queued_tasks b)"
    using h(1) by (simp add: queued_tasks_def queued_update_leave)
  also have "\<dots> = map entry_task (queue (sem b))"
  proof -
    have "filter (\<lambda>j. j \<noteq> ?i) xs = xs" if "?i \<notin> set xs" for xs
      using that by (induction xs) auto
    from this [OF h(3)] show ?thesis by (subst q) simp
  qed
  finally have q': "queued_tasks (b\<lparr>tasks := (tasks b)[?i := Running]\<rparr>) = map entry_task (queue (sem b))" .
  have run: "running_tasks (b\<lparr>tasks := (tasks b)[?i := Running]\<rparr>) = running_tasks b + 1"
    using running_update_start [of ?i "tasks b"] h by (simp add: running_tasks_def)
  have res: "filter (\<lambda>j. (tasks b)[?i := Running] ! j = Settled) [0..<length paths]
      = filter (\<lambda>j. tasks b ! j = Settled) [0..<length paths]"
    using settled_update_other [of ?i "tasks b" Running] h len by simp
  have st: "\<forall>j\<in>S. (tasks b)[?i := Running] ! j = Settled"
    using inv h by (auto simp: binv_def nth_list_update)
  from inv q' run res st show ?thesis
    by (simp add: binv_def)
qed

lemma binv_after_release:
  "binv S tg paths N 1 [] b \<Longrightarrow> binv S tg paths N 0 [] (after_release paths b)"
proof (induction paths b rule: after_release.induct)
  case (1 paths b)
  obtain rej g s' where rel: "release (signal b) (sem b) = ((rej, g), s')"
    by (metis surj_pair)
  then obtain cur' where loop:
    "release_loop (signal_aborted (signal b)) (queue (sem b)) (current (sem b) - 1)
       = (rej, g, queue s', cur')"
    and s': "s' = (sem b)\<lparr>current := cur', queue := queue s'\<rparr>"
    by (auto simp: release_def split: prod.splits)
  note spec = release_loop_spec [OF loop]
  let ?b0 = "b\<lparr>sem := s'\<rparr>"
  let ?b1 = "reject_entries paths ?b0 rej"
  show ?case
  proof (cases g)
    case None
    with spec have "queue (sem b) = rej" "queue s' = []" "cur' = current (sem b) - 1" by simp_all
    with "1.prems" s' have "binv S tg paths N 0 (rej @ []) ?b0"
      by (simp add: binv_def running_tasks_def queued_tasks_def)
        (metis semaphore.select_convs semaphore.update_convs(2) semaphore.update_convs(3) semaphore.surjective)
    then have "binv S tg paths N 0 [] ?b1" by (rule binv_reject_entries)
    with rel None show ?thesis by (simp add: after_release.simps [of paths b] Let_def)
  next
    case (Some e)
    with spec have sp: "queue (sem b) = rej @ e # queue s'" "cur' = current (sem b)" by simp_all
    have "binv S tg paths N 1 (rej @ [e]) ?b0"
      using "1.prems" s' sp
      by (simp add: binv_def running_tasks_def queued_tasks_def)
        (metis semaphore.select_convs semaphore.update_convs(2) semaphore.update_convs(3) semaphore.surjective)
    then have b1: "binv S tg paths N 1 [e] ?b1" by (rule binv_reject_entries)
    show ?thesis
    proof (cases "throwIfAborted (signal ?b1)")
      case (Inr u)
      with rel Some binv_grant [OF b1] show ?thesis
        by (simp add: after_release.simps [of paths b] Let_def)
    next
      case (Inl err)
      let ?b2 = "push_settled paths ?b1 (entry_task e) (task_catch (signal ?b1) (paths ! entry_task e) err)"
      have "binv S tg paths N 1 [] ?b2"
        using b1 by (rule binv_settle_queued) simp
      from "1.IH" [OF rel [symmetric] refl refl Some Inl this] rel Some Inl show ?thesis
        by (simp add: after_release.simps [of paths b] Let_def)
    qed
  qed
qed

lemma binv_settle_running:
  assumes inv: "binv S tg paths N 0 [] b" and i: "i < length (tasks b)" "tasks b ! i = Running"
    and r: "tg \<longrightarrow> inputPath r = paths ! i"
  shows "binv S tg paths N 1 [] (push_settled paths b i r)"
proof -
  from inv have len: "length (tasks b) = length paths" by (simp add: binv_def)
  have "i \<notin> set (queued_tasks b)" using i by (simp add: queued_tasks_def)
  then have "filter (\<lambda>j. j \<noteq> i) (queued_tasks b) = queued_tasks b"
    by (rule filter_neq_id)
  then have q': "queued_tasks (push_settled paths b i r) = queued_tasks b"
    using i(1) by (simp add: queued_tasks_def push_settled_def queued_update_leave)
  have run: "running_tasks (push_settled paths b i r) + 1 = running_tasks b"
    using running_update_stop [of i "tasks b" Settled] i
    by (simp add: push_settled_def running_tasks_def)
  have res: "tg \<longrightarrow> mset (map inputPath (results (push_settled paths b i r)))
       = image_mset (nth paths)
          (mset (filter (\<lambda>j. tasks (push_settled paths b i r) ! j = Settled) [0..<length paths]))"
    using inv i r settled_update_new [of i "tasks b"] len
    by (simp add: binv_def push_settled_def)
  have st: "\<forall>j\<in>S. (tasks b)[i := Settled] ! j = Settled"
    using inv i by (auto simp: binv_def nth_list_update)
  from inv q' run res st show ?thesis
    by (simp add: binv_def push_settled_def)
qed

lemma binv_abort:
  assumes inv: "binv S tg paths N 0 [] b" and sg: "signal b = Some g"
  shows "binv S tg paths N 0 []
     (case abort_listeners (sem b) of
        (rej, s') \<Rightarrow> reject_entries paths (b\<lparr>signal := Some (g\<lparr>aborted := True, reason := r\<rparr>), sem := s'\<rparr>) rej)"
proof -
  from inv sg have all: "list_all entry_signal (queue (sem b))"
    by (simp add: binv_def list_all_iff)
  then have f1: "filter entry_signal (queue (sem b)) = queue (sem b)"
    by (simp add: list_all_iff filter_id_conv)
  from all have f2: "filter (\<lambda>e. \<not> entry_signal e) (queue (sem b)) = []"
    by (simp add: list_all_iff filter_empty_conv)
  let ?b0 = "b\<lparr>signal := Some (g\<lparr>aborted := True, reason := r\<rparr>), sem := (sem b)\<lparr>queue := []\<rparr>\<rparr>"
  have "binv S tg paths N 0 (queue (sem b) @ []) ?b0"
    using inv sg by (auto simp: binv_def running_tasks_def queued_tasks_def)
  then have "binv S tg paths N 0 [] (reject_entries paths ?b0 (queue (sem b)))"
    by (rule binv_reject_entries)
  then show ?thesis by (simp add: abort_listeners_def f1 f2)
qed

lemma binv_batch_step:
  assumes inv: "binv S tg paths N 0 [] b" and ev: "tg \<longrightarrow> event_tagged paths ev"
  shows "binv S tg paths N 0 [] (batch_step paths b ev)"
proof (cases ev)
  case (Settle i out)
  show ?thesis
  proof (cases "i < length (tasks b) \<and> tasks b ! i = Running")
    case True
    let ?r = "case out of Returned r \<Rightarrow> r | Threw err \<Rightarrow> task_catch (signal b) (paths ! i) err"
    have "tg \<longrightarrow> inputPath ?r = paths ! i"
      using ev Settle by (cases out) (simp_all add: event_tagged_def)
    with inv True have "binv S tg paths N 1 [] (push_settled paths b i ?r)"
      by (intro binv_settle_running) simp_all
    then have "binv S tg paths N 0 [] (after_release paths (push_settled paths b i ?r))"
      by (rule binv_after_release)
    with True Settle show ?thesis by simp
  next
    case False
    with inv Settle show ?thesis by auto
  qed
next
  case (SignalAbort r)
  show ?thesis
  proof (cases "signal b")
    case None
    with inv SignalAbort show ?thesis by simp
  next
    case (Some g)
    show ?thesis
    proof (cases "aborted g")
      case True
      with inv SignalAbort Some show ?thesis by simp
    next
      case False
      with SignalAbort Some binv_abort [OF inv Some, of r] show ?thesis by simp
    qed
  qed
qed

lemma binv_batch_run:
  "binv S tg paths N 0 [] b \<Longrightarrow> (tg \<longrightarrow> list_all (event_tagged paths) evs) \<Longrightarrow>
   binv S tg paths N 0 [] (batch_run paths b evs)"
proof (induction evs arbitrary: b)
  case Nil
  then show ?case by (simp add: batch_run_def)
next
  case (Cons ev evs)
  from Cons.prems have "binv S tg paths N 0 [] (batch_step paths b ev)"
    by (intro binv_batch_step) simp_all
  from Cons.IH [OF this] Cons.prems(2) show ?case by (simp add: batch_run_def)
qed

lemma binv_start_task:
  assumes inv: "binv S tg paths N 0 [] b" and i: "i < length paths"
    and ns: "\<forall>j. i \<le> j \<and> j < length paths \<longrightarrow> tasks b ! j = NotStarted"
  shows "binv S tg paths N 0 [] (start_task paths b i)
     \<and> (\<forall>j. Suc i \<le> j \<and> j < length paths \<longrightarrow> tasks (start_task paths b i) ! j = NotStarted)"
proof -
  from inv have len: "length (tasks b) = length paths" by (simp add: binv_def)
  from ns i have ti: "tasks b ! i = NotStarted" by simp
  have nq: "i \<notin> set (queued_tasks b)" using ti by (simp add: queued_tasks_def)
  have fid: "filter (\<lambda>j. j \<noteq> i) (queued_tasks b) = queued_tasks b"
    using nq by (rule filter_neq_id)
  have iS: "i \<notin> S" using inv ti by (auto simp: binv_def)
  show ?thesis
  proof (cases "signal_aborted (signal b)")
    case True
    let ?r = "task_catch (signal b) (paths ! i) (createAbortError msg_processing_cancelled)"
    have st: "start_task paths b i = push_settled paths b i ?r"
      using True by (simp add: start_task_def acquire_def)
    have q': "queued_tasks (push_settled paths b i ?r) = queued_tasks b"
      using i len ti queued_update_nonqueued [of i "tasks b" Settled]
      by (simp add: queued_tasks_def push_settled_def)
    have run: "running_tasks (push_settled paths b i ?r) = running_tasks b"
      using running_update_other [of i "tasks b" Settled] i len ti
      by (simp add: push_settled_def running_tasks_def)
    have res: "tg \<longrightarrow> mset (map inputPath (results (push_settled paths b i ?r)))
       = image_mset (nth paths)
          (mset (filter (\<lambda>j. tasks (push_settled paths b i ?r) ! j = Settled) [0..<length paths]))"
      using inv i ti settled_update_new [of i "tasks b"] len
      by (simp add: binv_def push_settled_def)
    have se: "\<forall>j\<in>S. (tasks b)[i := Settled] ! j = Settled"
      using inv i by (auto simp: binv_def nth_list_update)
    have "binv S tg paths N 0 [] (push_settled paths b i ?r)"
      using inv q' run res se by (simp add: binv_def push_settled_def)
    moreover have "\<forall>j. Suc i \<le> j \<and> j < length paths \<longrightarrow> tasks (push_settled paths b i ?r) ! j = NotStarted"
      using ns by (simp add: push_settled_def)
    ultimately show ?thesis by (simp only: st)
  next
    case False
    then have thr: "throwIfAborted (signal b) = Inr ()"
      by (auto simp: throwIfAborted_def signal_aborted_def split: option.splits)
    have res: "filter (\<lambda>j. (tasks b)[i := v] ! j = Settled) [0..<length paths]
        = filter (\<lambda>j. tasks b ! j = Settled) [0..<length paths]" if "v \<noteq> Settled" for v
      using settled_update_other [of i "tasks b" v] i len ti that by simp
    have se: "\<forall>j\<in>S. (tasks b)[i := v] ! j = Settled" for v
    proof
      fix j assume j: "j \<in> S"
      with iS have "i \<noteq> j" by auto
      then have "(tasks b)[i := v] ! j = tasks b ! j" by (rule nth_list_update_neq)
      with inv j show "(tasks b)[i := v] ! j = Settled" by (simp add: binv_def)
    qed
    show ?thesis
    proof (cases "current (sem b) < sem_max (sem b)")
      case True
      let ?b' = "b\<lparr>sem := (sem b)\<lparr>current := current (sem b) + 1\<rparr>, tasks := (tasks b)[i := Running]\<rparr>"
      have st: "start_task paths b i = ?b'"
        using True False thr by (simp add: start_task_def acquire_def)
      have q': "queued_tasks ?b' = queued_tasks b"
        using i len ti queued_update_nonqueued [of i "tasks b" Running]
        by (simp add: queued_tasks_def)
      have run: "running_tasks ?b' = running_tasks b + 1"
        using running_update_start [of i "tasks b"] i len ti by (simp add: running_tasks_def)
      have "binv S tg paths N 0 [] ?b'"
        using inv q' run res [of Running] se [of Running] True by (simp add: binv_def)
      moreover have "\<forall>j. Suc i \<le> j \<and> j < length paths \<longrightarrow> tasks ?b' ! j = NotStarted"
        using ns by simp
      ultimately show ?thesis by (simp only: st)
    next
      case full: False
      let ?e = "\<lparr>entry_task = i, entry_signal = (signal b \<noteq> None)\<rparr>"
      let ?b' = "b\<lparr>sem := (sem b)\<lparr>queue := queue (sem b) @ [?e]\<rparr>, tasks := (tasks b)[i := Queued]\<rparr>"
      have st: "start_task paths b i = ?b'"
        using full False by (simp add: start_task_def acquire_def)
      have "\<forall>j. i \<le> j \<and> j < length (tasks b) \<longrightarrow> tasks b ! j \<noteq> Queued"
        using ns len by simp
      from queued_update_enter [OF _ this] i len
      have q': "queued_tasks ?b' = queued_tasks b @ [i]"
        by (simp add: queued_tasks_def)
      have run: "running_tasks ?b' = running_tasks b"
        using running_update_other [of i "tasks b" Queued] i len ti by (simp add: running_tasks_def)
      have "binv S tg paths N 0 [] ?b'"
        using inv q' run res [of Queued] se [of Queued] by (simp add: binv_def)
      moreover have "\<forall>j. Suc i \<le> j \<and> j < length paths \<longrightarrow> tasks ?b' ! j = NotStarted"
        using ns by simp
      ultimately show ?thesis by (simp only: st)
    qed
  qed
qed

lemma binv_start_prefix:
  assumes "0 \<le> N \<or> True" and k: "k \<le> length paths"
  shows "binv {} tg paths N 0 []
       (foldl (start_task paths)
          \<lparr>sem = Semaphore_new N, tasks = replicate (length paths) NotStarted,
           results = [], signal = sg\<rparr> [0..<k])
     \<and> (\<forall>j. k \<le> j \<and> j < length paths \<longrightarrow>
          tasks (foldl (start_task paths)
          \<lparr>sem = Semaphore_new N, tasks = replicate (length paths) NotStarted,
           results = [], signal = sg\<rparr> [0..<k]) ! j = NotStarted)"
  using k
proof (induction k)
  case 0
  show ?case
    by (simp add: binv_def Semaphore_new_def running_tasks_def queued_tasks_def)
next
  case (Suc k)
  then have IH: "binv {} tg paths N 0 []
       (foldl (start_task paths)
          \<lparr>sem = Semaphore_new N, tasks = replicate (length paths) NotStarted,
           results = [], signal = sg\<rparr> [0..<k])
     \<and> (\<forall>j. k \<le> j \<and> j < length paths \<longrightarrow>
          tasks (foldl (start_task paths)
          \<lparr>sem = Semaphore_new N, tasks = replicate (length paths) NotStarted,
           results = [], signal = sg\<rparr> [0..<k]) ! j = NotStarted)" by simp
  from Suc.prems have "k < length paths" by simp
  from binv_start_task [OF IH [THEN conjunct1] this IH [THEN conjunct2]]
  show ?case by simp
qed

lemma binv_processFiles_start: "binv {} tg paths N 0 [] (processFiles_start N sg paths)"
  using binv_start_prefix [of N "length paths" paths tg sg]
  by (simp add: processFiles_start_def)

lemma binv_reachable:
  "(tg \<longrightarrow> list_all (event_tagged paths) evs) \<Longrightarrow>
   binv {} tg paths N 0 [] (batch_run paths (processFiles_start N sg paths) evs)"
  by (rule binv_batch_run [OF binv_processFiles_start])


lemma reject_entries_signal [simp]: "signal (reject_entries paths b es) = signal b"
  by (induction es arbitrary: b) (simp_all add: push_settled_def)

lemma reject_entries_results_mono:
  "r \<in> set (results b) \<Longrightarrow> r \<in> set (results (reject_entries paths b es))"
  by (induction es arbitrary: b) (simp_all add: push_settled_def)

lemma reject_entries_pushes:
  "e \<in> set es \<Longrightarrow>
   task_catch (signal b) (paths ! entry_task e) (createAbortError msg_processing_cancelled)
     \<in> set (results (reject_entries paths b es))"
proof (induction es arbitrary: b)
  case Nil
  then show ?case by simp
next
  case (Cons a es)
  show ?case
  proof (cases "e = a")
    case True
    then show ?thesis
      by (simp add: reject_entries_results_mono push_settled_def)
  next
    case False
    with Cons.prems have "e \<in> set es" by simp
    from Cons.IH [OF this, of "push_settled paths b (entry_task a)
          (task_catch (signal b) (paths ! entry_task a) (createAbortError msg_processing_cancelled))"]
    show ?thesis by (simp add: push_settled_def)
  qed
qed

lemma update_keeps_settled: "ts ! j = Settled \<Longrightarrow> ts[k := Settled] ! j = Settled"
  by (cases "k < length ts") (auto simp: nth_list_update list_update_beyond)

lemma reject_entries_keeps_settled:
  "tasks b ! j = Settled \<Longrightarrow> tasks (reject_entries paths b es) ! j = Settled"
  by (induction es arbitrary: b) (simp_all add: push_settled_def update_keeps_settled)

lemma reject_entries_settles:
  "e \<in> set es \<Longrightarrow> entry_task e < length (tasks b) \<Longrightarrow>
   tasks (reject_entries paths b es) ! entry_task e = Settled"
proof (induction es arbitrary: b)
  case Nil
  then show ?case by simp
next
  case (Cons a es)
  let ?b = "push_settled paths b (entry_task a)
          (task_catch (signal b) (paths ! entry_task a) (createAbortError msg_processing_cancelled))"
  have len: "length (tasks ?b) = length (tasks b)" by (simp add: push_settled_def)
  show ?case
  proof (cases "e \<in> set es")
    case True
    from Cons.IH [OF True, of ?b] Cons.prems(2) len show ?thesis by simp
  next
    case False
    with Cons.prems have ea: "e = a" by simp
    have "tasks ?b ! entry_task e = Settled"
      using ea Cons.prems(2) by (simp add: push_settled_def)
    from reject_entries_keeps_settled [OF this] show ?thesis by simp
  qed
qed

lemma abort_step_unfold:
  assumes inv: "binv S tg paths N 0 [] b" and sg: "signal b = Some g" and na: "\<not> aborted g"
  shows "batch_step paths b (SignalAbort r)
     = reject_entries paths
         (b\<lparr>signal := Some (g\<lparr>aborted := True, reason := r\<rparr>), sem := (sem b)\<lparr>queue := []\<rparr>\<rparr>)
         (queue (sem b))"
proof -
  from inv sg have all: "list_all entry_signal (queue (sem b))"
    by (simp add: binv_def list_all_iff)
  then have f1: "filter entry_signal (queue (sem b)) = queue (sem b)"
    by (simp add: list_all_iff filter_id_conv)
  from all have f2: "filter (\<lambda>e. \<not> entry_signal e) (queue (sem b)) = []"
    by (simp add: list_all_iff filter_empty_conv)
  show ?thesis using sg na by (simp add: abort_listeners_def f1 f2)
qed

lemma isAbortError_createAbortError [simp]: "isAbortError (createAbortError m)"
  by (simp add: isAbortError_def createAbortError_def)

text \<open>
  C5. In every state a batch with concurrency limit \<open>N\<close> of at least 1 can reach, at most
  \<open>N\<close> tasks run; the queue holds the waiting tasks in arrival (input) order, and the slot a
  settling task frees goes to the head of the queue, the rest keeping its order; when the
  signal aborts, every acquisition still queued is rejected at once: the queue is empty, the
  task has pushed its cancelled result, and it is settled in every later state, so it
  never runs.
\<close>

theorem C5_semaphore_bound_fifo_abort:
  fixes N :: int and paths :: "string list" and sg :: "abort_signal option"
    and evs :: "batch_event list"
  assumes N: "1 \<le> N"
  defines "b \<equiv> batch_run paths (processFiles_start N sg paths) evs"
  shows "int (running_tasks b) \<le> N
    \<and> map entry_task (queue (sem b)) = queued_tasks b
    \<and> (tasks b ! i = Running \<and> i < length paths \<and> queue (sem b) = e # q
          \<and> \<not> signal_aborted (signal b) \<longrightarrow>
        tasks (batch_step paths b (Settle i out)) ! entry_task e = Running
          \<and> queue (sem (batch_step paths b (Settle i out))) = q)
    \<and> (signal b = Some g \<and> \<not> aborted g \<and> j \<in> set (queued_tasks b) \<longrightarrow>
        queue (sem (batch_step paths b (SignalAbort r))) = []
          \<and> cancelled_result (paths ! j) \<in> set (results (batch_step paths b (SignalAbort r)))
          \<and> tasks (batch_run paths (batch_step paths b (SignalAbort r)) evs') ! j = Settled)"
proof -
  have inv: "binv {} False paths N 0 [] b"
    unfolding b_def by (rule binv_reachable) simp
  then have len: "length (tasks b) = length paths" by (simp add: binv_def)
  have bound: "int (running_tasks b) \<le> N"
    using inv N by (simp add: binv_def)
  have order: "map entry_task (queue (sem b)) = queued_tasks b"
    using inv by (simp add: binv_def)
  have fifo: "tasks (batch_step paths b (Settle i out)) ! entry_task e = Running
          \<and> queue (sem (batch_step paths b (Settle i out))) = q"
    if run: "tasks b ! i = Running" and i: "i < length paths" and qu: "queue (sem b) = e # q"
      and na: "\<not> signal_aborted (signal b)"
  proof -
    have "entry_task e \<in> set (queued_tasks b)"
      using order qu by (metis list.set_intros(1) list.simps(9))
    then have e: "entry_task e < length (tasks b)" by (simp add: queued_tasks_def)
    have thr: "throwIfAborted (signal b) = Inr ()"
      using na by (auto simp: throwIfAborted_def signal_aborted_def split: option.splits)
    show ?thesis
      using run i qu na e thr len
      by (simp add: after_release.simps release_def push_settled_def Let_def)
  qed
  have abort: "queue (sem (batch_step paths b (SignalAbort r))) = []
          \<and> cancelled_result (paths ! j) \<in> set (results (batch_step paths b (SignalAbort r)))
          \<and> tasks (batch_run paths (batch_step paths b (SignalAbort r)) evs') ! j = Settled"
    if sg: "signal b = Some g" and na: "\<not> aborted g" and j: "j \<in> set (queued_tasks b)"
  proof -
    let ?b0 = "b\<lparr>signal := Some (g\<lparr>aborted := True, reason := r\<rparr>), sem := (sem b)\<lparr>queue := []\<rparr>\<rparr>"
    let ?b' = "batch_step paths b (SignalAbort r)"
    have unf: "?b' = reject_entries paths ?b0 (queue (sem b))"
      using inv sg na by (rule abort_step_unfold)
    from j order obtain e where e: "e \<in> set (queue (sem b))" "entry_task e = j"
      by (metis (no_types, lifting) imageE list.set_map)
    from j have jl: "j < length (tasks b)" by (simp add: queued_tasks_def)
    have q: "queue (sem ?b') = []" unfolding unf by simp
    have "task_catch (signal ?b0) (paths ! entry_task e) (createAbortError msg_processing_cancelled)
        \<in> set (results ?b')"
      unfolding unf using e(1) by (rule reject_entries_pushes)
    then have res: "cancelled_result (paths ! j) \<in> set (results ?b')"
      using e(2) by (simp add: task_catch_def)
    have st: "tasks ?b' ! j = Settled"
      unfolding unf using reject_entries_settles [OF e(1), of ?b0 paths] jl e(2) by simp
    have inv': "binv {} False paths N 0 [] ?b'"
      using inv by (rule binv_batch_step) simp
    then have "binv {j} False paths N 0 [] ?b'"
      using st by (simp add: binv_def)
    then have "binv {j} False paths N 0 [] (batch_run paths ?b' evs')"
      by (rule binv_batch_run) simp
    then have "tasks (batch_run paths ?b' evs') ! j = Settled"
      by (simp add: binv_def)
    with q res show ?thesis by simp
  qed
  from bound order fifo abort show ?thesis by blast
qed


lemma indexByPath_nth:
  assumes "distinct paths" "i < length paths"
  shows "indexByPath paths (paths ! i) = Some i"
proof -
  have d: "distinct (map fst (zip paths [0..<length paths]))" using assms(1) by simp
  have "map_of (rev (zip paths [0..<length paths])) = map_of (zip paths [0..<length paths])"
    using d by (metis distinct_rev rev_map map_of_inject_set set_rev)
  moreover have "map_of (zip paths [0..<length paths]) (paths ! i) = Some ([0..<length paths] ! i)"
    using assms by (intro map_of_zip_nth) simp_all
  ultimately show ?thesis using assms(2) by (simp add: indexByPath_def)
qed

lemma sort_by_input_restores:
  assumes d: "distinct paths" and m: "mset (map inputPath rs) = mset paths"
  shows "map inputPath (sort_by_input paths rs) = paths"
proof -
  define idx where "idx p = (case indexByPath paths p of Some i \<Rightarrow> i | None \<Rightarrow> 0)" for p
  define ys where "ys = map inputPath (sort_by_input paths rs)"
  have idx_nth: "idx (paths ! i) = i" if "i < length paths" for i
    using indexByPath_nth [OF d that] by (simp add: idx_def)
  have key: "sort_by_input paths rs = sort_key (idx \<circ> inputPath) rs"
    by (simp add: sort_by_input_def idx_def comp_def)
  have srt: "sorted (map idx ys)"
    unfolding ys_def key using sorted_sort_key [of "idx \<circ> inputPath" rs] by (simp add: comp_def)
  have mys: "mset ys = mset paths"
    unfolding ys_def key using m by (metis mset_map mset_sort)
  then have sys: "set ys = set paths" by (rule mset_eq_setD)
  have dys: "distinct ys" using mys d by (metis mset_eq_imp_distinct_iff)
  have inj: "inj_on idx (set paths)"
  proof (rule inj_onI)
    fix p q assume "p \<in> set paths" "q \<in> set paths" "idx p = idx q"
    then obtain i k where "i < length paths" "p = paths ! i" "k < length paths" "q = paths ! k"
      by (metis in_set_conv_nth)
    with \<open>idx p = idx q\<close> idx_nth show "p = q" by simp
  qed
  have mp: "map idx paths = [0..<length paths]"
    by (rule nth_equalityI) (simp_all add: idx_nth)
  have "map idx ys = map idx paths"
  proof (rule sorted_distinct_set_unique)
    show "sorted (map idx ys)" by (rule srt)
    show "distinct (map idx ys)" using dys inj sys by (simp add: distinct_map)
    show "sorted (map idx paths)" by (simp add: mp)
    show "distinct (map idx paths)" by (simp add: mp)
    show "set (map idx ys) = set (map idx paths)" using sys by simp
  qed
  moreover have "inj_on idx (set ys \<union> set paths)" using inj sys by simp
  ultimately have "ys = paths" by (simp add: inj_on_map_eq_map)
  then show ?thesis by (simp add: ys_def)
qed

lemma results_push_settled [simp]: "results (push_settled paths b i r) = results b @ [r]"
  by (simp add: push_settled_def)

lemma reject_entries_results_app: "\<exists>ys. results (reject_entries paths b es) = results b @ ys"
proof (induction es arbitrary: b)
  case Nil
  show ?case by simp
next
  case (Cons e es)
  from Cons [of "push_settled paths b (entry_task e)
      (task_catch (signal b) (paths ! entry_task e) (createAbortError msg_processing_cancelled))"]
  show ?case by auto
qed

lemma after_release_results_app: "\<exists>ys. results (after_release paths b) = results b @ ys"
proof (induction paths b rule: after_release.induct)
  case (1 paths b)
  obtain rej g s' where rel: "release (signal b) (sem b) = ((rej, g), s')"
    by (metis prod.exhaust)
  define b1 where "b1 = reject_entries paths (b\<lparr>sem := s'\<rparr>) rej"
  have sb: "signal b1 = signal b" by (simp add: b1_def)
  obtain ys where ys: "results b1 = results b @ ys"
    using reject_entries_results_app [of paths "b\<lparr>sem := s'\<rparr>" rej] by (auto simp: b1_def)
  have unf: "after_release paths b =
      (case g of None \<Rightarrow> b1
       | Some e \<Rightarrow>
           (case throwIfAborted (signal b1) of
              Inr u \<Rightarrow> b1\<lparr>tasks := (tasks b1)[entry_task e := Running]\<rparr>
            | Inl err \<Rightarrow> after_release paths (push_settled paths b1 (entry_task e)
                 (task_catch (signal b1) (paths ! entry_task e) err))))"
    unfolding b1_def
    by (subst after_release.simps) (simp add: rel Let_def split: option.splits)
  show ?case
  proof (cases g)
    case None
    then show ?thesis using ys unf by simp
  next
    case (Some e)
    show ?thesis
    proof (cases "throwIfAborted (signal b1)")
      case (Inr u)
      then show ?thesis using ys unf Some by simp
    next
      case (Inl err)
      from 1 [OF rel [symmetric] refl b1_def Some Inl]
      obtain zs where "results (after_release paths (push_settled paths b1 (entry_task e)
           (task_catch (signal b1) (paths ! entry_task e) err)))
         = results b1 @ [task_catch (signal b1) (paths ! entry_task e) err] @ zs"
        by auto
      then show ?thesis using ys unf Some Inl by simp
    qed
  qed
qed

lemma batch_step_results_app: "\<exists>ys. results (batch_step paths b ev) = results b @ ys"
proof (cases ev)
  case (Settle i out)
  show ?thesis
    using after_release_results_app [of paths "push_settled paths b i
        (case out of Returned r \<Rightarrow> r | Threw err \<Rightarrow> task_catch (signal b) (paths ! i) err)"]
    by (auto simp: Settle)
next
  case (SignalAbort r)
  show ?thesis
  proof (cases "signal b")
    case None
    then show ?thesis by (simp add: SignalAbort)
  next
    case (Some g)
    obtain rej s' where al: "abort_listeners (sem b) = (rej, s')" by (metis prod.exhaust)
    show ?thesis
      using reject_entries_results_app
        [of paths "b\<lparr>signal := Some (g\<lparr>aborted := True, reason := r\<rparr>), sem := s'\<rparr>" rej]
      by (auto simp: SignalAbort Some al)
  qed
qed

lemma batch_run_results_app: "\<exists>ys. results (batch_run paths b evs) = results b @ ys"
proof (induction evs arbitrary: b)
  case Nil
  show ?case by (simp add: batch_run_def)
next
  case (Cons ev evs)
  from Cons [of "batch_step paths b ev"] batch_step_results_app [of paths b ev]
  show ?case by (auto simp: batch_run_def)
qed

lemma batch_run_append:
  "batch_run paths b (xs @ ys) = batch_run paths (batch_run paths b xs) ys"
  by (simp add: batch_run_def)

lemma settle_step_grows:
  assumes "i < length (tasks b)" "tasks b ! i = Running"
  shows "length (results b) < length (results (batch_step paths b (Settle i out)))"
  using assms after_release_results_app [of paths "push_settled paths b i
        (case out of Returned r \<Rightarrow> r | Threw err \<Rightarrow> task_catch (signal b) (paths ! i) err)"]
  by auto


lemma after_release_unfold:
  assumes "release (signal b) (sem b) = ((rej, g), s')"
  shows "after_release paths b =
      (case g of None \<Rightarrow> reject_entries paths (b\<lparr>sem := s'\<rparr>) rej
       | Some e \<Rightarrow>
           (case throwIfAborted (signal b) of
              Inr u \<Rightarrow> (reject_entries paths (b\<lparr>sem := s'\<rparr>) rej)
                 \<lparr>tasks := (tasks (reject_entries paths (b\<lparr>sem := s'\<rparr>) rej))[entry_task e := Running]\<rparr>
            | Inl err \<Rightarrow> after_release paths
                 (push_settled paths (reject_entries paths (b\<lparr>sem := s'\<rparr>) rej) (entry_task e)
                    (task_catch (signal b) (paths ! entry_task e) err))))"
  by (subst after_release.simps) (simp add: assms Let_def split: option.splits sum.splits)

lemma update_keeps_started:
  "v \<noteq> NotStarted \<Longrightarrow> ts ! j \<noteq> NotStarted \<Longrightarrow> ts[k := v] ! j \<noteq> NotStarted"
  by (cases "k < length ts") (auto simp: nth_list_update list_update_beyond)

lemma push_settled_started:
  "tasks b ! j \<noteq> NotStarted \<Longrightarrow> tasks (push_settled paths b i r) ! j \<noteq> NotStarted"
  by (simp add: push_settled_def update_keeps_started)

lemma reject_entries_started:
  "tasks b ! j \<noteq> NotStarted \<Longrightarrow> tasks (reject_entries paths b es) ! j \<noteq> NotStarted"
  by (induction es arbitrary: b) (simp_all add: push_settled_started)

lemma after_release_started:
  "tasks b ! j \<noteq> NotStarted \<Longrightarrow> tasks (after_release paths b) ! j \<noteq> NotStarted"
proof (induction paths b rule: after_release.induct)
  case (1 paths b)
  obtain rej g s' where rel: "release (signal b) (sem b) = ((rej, g), s')"
    by (metis prod.exhaust)
  define b1 where "b1 = reject_entries paths (b\<lparr>sem := s'\<rparr>) rej"
  have sb: "signal b1 = signal b" by (simp add: b1_def)
  have st: "tasks b1 ! j \<noteq> NotStarted"
    unfolding b1_def using "1.prems" by (intro reject_entries_started) simp
  note unf = after_release_unfold [OF rel, of paths, folded b1_def]
  show ?case
  proof (cases g)
    case None
    then show ?thesis using st unf by simp
  next
    case (Some e)
    show ?thesis
    proof (cases "throwIfAborted (signal b)")
      case (Inr u)
      then show ?thesis using st unf Some by (simp add: update_keeps_started)
    next
      case (Inl err)
      have "tasks (after_release paths (push_settled paths b1 (entry_task e)
           (task_catch (signal b1) (paths ! entry_task e) err))) ! j \<noteq> NotStarted"
        using Inl sb by (intro "1.IH" [OF rel [symmetric] refl b1_def Some] push_settled_started st) simp
      then show ?thesis using unf Some Inl sb by simp
    qed
  qed
qed

lemma batch_step_started:
  "tasks b ! j \<noteq> NotStarted \<Longrightarrow> tasks (batch_step paths b ev) ! j \<noteq> NotStarted"
proof (cases ev)
  case (Settle i out)
  assume "tasks b ! j \<noteq> NotStarted"
  then show ?thesis
    by (simp add: Settle after_release_started push_settled_started)
next
  case (SignalAbort r)
  assume "tasks b ! j \<noteq> NotStarted"
  then show ?thesis
    by (auto simp: SignalAbort split: option.splits prod.splits intro!: reject_entries_started)
qed

lemma start_task_started:
  "tasks b ! j \<noteq> NotStarted \<Longrightarrow> tasks (start_task paths b i) ! j \<noteq> NotStarted"
  by (auto simp: start_task_def update_keeps_started split: prod.splits acquire_result.splits sum.splits
           intro!: after_release_started push_settled_started)

lemma start_task_starts:
  assumes "i < length (tasks b)"
  shows "tasks (start_task paths b i) ! i \<noteq> NotStarted"
  using assms
  by (auto simp: start_task_def push_settled_def split: prod.splits acquire_result.splits sum.splits
           intro!: after_release_started)

text \<open>While tasks wait in the queue, every slot of the semaphore is taken.\<close>

lemma acquire_full:
  assumes "queue s \<noteq> [] \<longrightarrow> sem_max s \<le> current s" and "acquire sg i s = (a, s')"
  shows "queue s' \<noteq> [] \<longrightarrow> sem_max s' \<le> current s'"
  using assms by (auto simp: acquire_def split: if_splits)

lemma release_full:
  assumes "queue s \<noteq> [] \<longrightarrow> sem_max s \<le> current s" and "release sg s = ((rej, g), s')"
  shows "queue s' \<noteq> [] \<longrightarrow> sem_max s' \<le> current s'"
proof -
  obtain q' cur' where l: "release_loop (signal_aborted sg) (queue s) (current s - 1) = (rej, g, q', cur')"
    and s': "s' = s\<lparr>current := cur', queue := q'\<rparr>"
    using assms(2) by (auto simp: release_def split: prod.splits)
  from release_loop_spec [OF l] assms(1) show ?thesis
    by (cases g) (auto simp: s')
qed

lemma after_release_full:
  "(queue (sem b) \<noteq> [] \<longrightarrow> sem_max (sem b) \<le> current (sem b)) \<Longrightarrow>
   queue (sem (after_release paths b)) \<noteq> [] \<longrightarrow>
     sem_max (sem (after_release paths b)) \<le> current (sem (after_release paths b))"
proof (induction paths b rule: after_release.induct)
  case (1 paths b)
  obtain rej g s' where rel: "release (signal b) (sem b) = ((rej, g), s')"
    by (metis prod.exhaust)
  define b1 where "b1 = reject_entries paths (b\<lparr>sem := s'\<rparr>) rej"
  have sb: "signal b1 = signal b" and sm: "sem b1 = s'" by (simp_all add: b1_def)
  have full: "queue s' \<noteq> [] \<longrightarrow> sem_max s' \<le> current s'"
    using "1.prems" rel by (rule release_full)
  note unf = after_release_unfold [OF rel, of paths, folded b1_def]
  show ?case
  proof (cases g)
    case None
    then show ?thesis using full sm unf by simp
  next
    case (Some e)
    show ?thesis
    proof (cases "throwIfAborted (signal b)")
      case (Inr u)
      then show ?thesis using full sm unf Some by simp
    next
      case (Inl err)
      let ?b2 = "push_settled paths b1 (entry_task e) (task_catch (signal b1) (paths ! entry_task e) err)"
      have "sem ?b2 = s'" using sm by (simp add: push_settled_def)
      with full have "queue (sem ?b2) \<noteq> [] \<longrightarrow> sem_max (sem ?b2) \<le> current (sem ?b2)" by simp
      from "1.IH" [OF rel [symmetric] refl b1_def Some _ this] Inl sb
      show ?thesis using unf Some Inl sb by simp
    qed
  qed
qed

lemma batch_step_full:
  assumes "queue (sem b) \<noteq> [] \<longrightarrow> sem_max (sem b) \<le> current (sem b)"
  shows "queue (sem (batch_step paths b ev)) \<noteq> [] \<longrightarrow>
     sem_max (sem (batch_step paths b ev)) \<le> current (sem (batch_step paths b ev))"
proof (cases ev)
  case (Settle i out)
  have "sem (push_settled paths b i r) = sem b" for r by (simp add: push_settled_def)
  with assms after_release_full [of "push_settled paths b i r" paths for r]
  show ?thesis by (simp add: Settle)
next
  case (SignalAbort r)
  with assms show ?thesis
    by (auto simp: abort_listeners_def split: option.splits)
qed

lemma start_task_full:
  assumes "queue (sem b) \<noteq> [] \<longrightarrow> sem_max (sem b) \<le> current (sem b)"
  shows "queue (sem (start_task paths b i)) \<noteq> [] \<longrightarrow>
     sem_max (sem (start_task paths b i)) \<le> current (sem (start_task paths b i))"
proof -
  obtain a s' where ac: "acquire (signal b) i (sem b) = (a, s')" by (metis prod.exhaust)
  from acquire_full [OF assms ac] have f: "queue s' \<noteq> [] \<longrightarrow> sem_max s' \<le> current s'" .
  have "sem (push_settled paths (b\<lparr>sem := s'\<rparr>) i r) = s'" for r by (simp add: push_settled_def)
  with f after_release_full [of "push_settled paths (b\<lparr>sem := s'\<rparr>) i r" paths for r]
  show ?thesis
    by (cases a) (auto simp: start_task_def ac push_settled_def split: sum.splits)
qed


lemma start_prefix_started:
  fixes N :: int and sg :: "abort_signal option" and paths :: "string list"
  assumes k: "k \<le> length paths"
  defines "b0 \<equiv> \<lparr>sem = Semaphore_new N, tasks = replicate (length paths) NotStarted,
           results = [], signal = sg\<rparr>"
  shows "(\<forall>j<k. tasks (foldl (start_task paths) b0 [0..<k]) ! j \<noteq> NotStarted)
     \<and> (queue (sem (foldl (start_task paths) b0 [0..<k])) \<noteq> [] \<longrightarrow>
          sem_max (sem (foldl (start_task paths) b0 [0..<k]))
            \<le> current (sem (foldl (start_task paths) b0 [0..<k])))"
  using k
proof (induction k)
  case 0
  show ?case by (simp add: b0_def Semaphore_new_def)
next
  case (Suc k)
  let ?b = "foldl (start_task paths) b0 [0..<k]"
  from Suc have IH: "\<forall>j<k. tasks ?b ! j \<noteq> NotStarted"
    "queue (sem ?b) \<noteq> [] \<longrightarrow> sem_max (sem ?b) \<le> current (sem ?b)" and k: "k < length paths"
    by simp_all
  have "binv {} False paths N 0 [] ?b"
    using binv_start_prefix [of N k paths False sg] k by (simp add: b0_def)
  then have len: "length (tasks ?b) = length paths" by (simp add: binv_def)
  have step: "foldl (start_task paths) b0 [0..<Suc k] = start_task paths ?b k" by simp
  have "tasks (start_task paths ?b k) ! j \<noteq> NotStarted" if "j < Suc k" for j
  proof (cases "j = k")
    case True
    then show ?thesis using start_task_starts [of k ?b paths] k len by simp
  next
    case False
    with that IH(1) show ?thesis by (intro start_task_started) simp
  qed
  with start_task_full [OF IH(2), of paths k] show ?case
    unfolding step by blast
qed

lemma processFiles_start_started:
  "(\<forall>j<length paths. tasks (processFiles_start N sg paths) ! j \<noteq> NotStarted)
   \<and> (queue (sem (processFiles_start N sg paths)) \<noteq> [] \<longrightarrow>
        sem_max (sem (processFiles_start N sg paths)) \<le> current (sem (processFiles_start N sg paths)))"
  using start_prefix_started [of "length paths" paths N sg] by (simp add: processFiles_start_def)

lemma batch_run_started:
  assumes "\<forall>j<n. tasks b ! j \<noteq> NotStarted"
    and "queue (sem b) \<noteq> [] \<longrightarrow> sem_max (sem b) \<le> current (sem b)"
  shows "(\<forall>j<n. tasks (batch_run paths b evs) ! j \<noteq> NotStarted)
     \<and> (queue (sem (batch_run paths b evs)) \<noteq> [] \<longrightarrow>
          sem_max (sem (batch_run paths b evs)) \<le> current (sem (batch_run paths b evs)))"
  using assms
proof (induction evs arbitrary: b)
  case Nil
  then show ?case by (simp add: batch_run_def)
next
  case (Cons ev evs)
  have "\<forall>j<n. tasks (batch_step paths b ev) ! j \<noteq> NotStarted"
    using Cons.prems(1) by (simp add: batch_step_started)
  from Cons.IH [OF this batch_step_full [OF Cons.prems(2)]]
  show ?case by (simp add: batch_run_def)
qed

text \<open>A batch that has not returned is waiting for a \<open>processFile\<close> call.\<close>

lemma pending_has_running:
  assumes N: "1 \<le> N" and inv: "binv {} tg paths N 0 [] b"
    and st: "\<forall>j<length paths. tasks b ! j \<noteq> NotStarted"
    and full: "queue (sem b) \<noteq> [] \<longrightarrow> sem_max (sem b) \<le> current (sem b)"
    and pend: "\<not> list_all (\<lambda>t. t = Settled) (tasks b)"
  shows "\<exists>i<length paths. tasks b ! i = Running"
proof -
  from inv have len: "length (tasks b) = length paths" by (simp add: binv_def)
  from pend len obtain i where i: "i < length paths" "tasks b ! i \<noteq> Settled"
    by (auto simp: list_all_length)
  have "0 < running_tasks b"
  proof (cases "tasks b ! i")
    case Queued
    then have "i \<in> set (queued_tasks b)" using i len by (simp add: queued_tasks_def)
    then have "queue (sem b) \<noteq> []" using inv by (auto simp: binv_def)
    with full inv N show ?thesis by (simp add: binv_def)
  next
    case Running
    then have "Running \<in> set (tasks b)" using i len by (metis nth_mem)
    then show ?thesis by (simp add: running_tasks_def filter_empty_conv)
  qed (use i st in auto)
  then obtain t where "t \<in> set (tasks b)" "t = Running"
    by (auto simp: running_tasks_def filter_empty_conv)
  then show ?thesis using len by (metis in_set_conv_nth)
qed

lemma results_bound:
  assumes "binv {} True paths N 0 [] b"
  shows "length (results b) \<le> length paths"
proof -
  from assms have "mset (map inputPath (results b))
      = image_mset (nth paths) (mset (filter (\<lambda>i. tasks b ! i = Settled) [0..<length paths]))"
    by (simp add: binv_def)
  then have "size (mset (map inputPath (results b)))
      = size (image_mset (nth paths) (mset (filter (\<lambda>i. tasks b ! i = Settled) [0..<length paths])))"
    by simp
  then have "length (results b) = length (filter (\<lambda>i. tasks b ! i = Settled) [0..<length paths])"
    by (simp only: size_mset size_image_mset length_map)
  also have "\<dots> \<le> length [0..<length paths]" by (rule length_filter_le)
  finally show ?thesis by simp
qed

text \<open>When every running \<open>processFile\<close> call settles in turn, the batch returns.\<close>

lemma batch_completes:
  assumes N: "1 \<le> N"
  shows "binv {} True paths N 0 [] b \<Longrightarrow> \<forall>j<length paths. tasks b ! j \<noteq> NotStarted \<Longrightarrow>
     (queue (sem b) \<noteq> [] \<longrightarrow> sem_max (sem b) \<le> current (sem b)) \<Longrightarrow>
     \<exists>evs. list_all (event_tagged paths) evs
        \<and> list_all (\<lambda>t. t = Settled) (tasks (batch_run paths b evs))"
proof (induction "length paths - length (results b)" arbitrary: b rule: less_induct)
  case less
  show ?case
  proof (cases "list_all (\<lambda>t. t = Settled) (tasks b)")
    case True
    then have "list_all (event_tagged paths) [] \<and> list_all (\<lambda>t. t = Settled) (tasks (batch_run paths b []))"
      by (simp add: batch_run_def)
    then show ?thesis by blast
  next
    case False
    from pending_has_running [OF N less.prems(1) less.prems(2) less.prems(3) False]
    obtain i where i: "i < length paths" "tasks b ! i = Running" by blast
    from less.prems(1) have len: "length (tasks b) = length paths" by (simp add: binv_def)
    let ?ev = "Settle i (Threw (new_Error []))"
    let ?b = "batch_step paths b ?ev"
    have tg: "event_tagged paths ?ev" by (simp add: event_tagged_def)
    have inv': "binv {} True paths N 0 [] ?b"
      using less.prems(1) tg by (intro binv_batch_step) simp_all
    have st': "\<forall>j<length paths. tasks ?b ! j \<noteq> NotStarted"
      using less.prems(2) by (simp add: batch_step_started del: batch_step.simps)
    have full': "queue (sem ?b) \<noteq> [] \<longrightarrow> sem_max (sem ?b) \<le> current (sem ?b)"
      using less.prems(3) by (rule batch_step_full)
    have "length (results b) < length (results ?b)"
      using i len by (intro settle_step_grows) simp_all
    moreover have "length (results ?b) \<le> length paths" using inv' by (rule results_bound)
    ultimately have "length paths - length (results ?b) < length paths - length (results b)"
      by simp
    from less.hyps [OF this inv' st' full']
    obtain evs where evs: "list_all (event_tagged paths) evs"
      "list_all (\<lambda>t. t = Settled) (tasks (batch_run paths ?b evs))" by blast
    have "list_all (event_tagged paths) (?ev # evs)
        \<and> list_all (\<lambda>t. t = Settled) (tasks (batch_run paths b (?ev # evs)))"
      using evs tg by (simp add: batch_run_def del: batch_step.simps)
    then show ?thesis by blast
  qed
qed


lemma settled_then_unsettled:
  assumes pre: "mset (map inputPath xs)
        = image_mset (nth paths) (mset (filter (\<lambda>i. P i) [0..<length paths]))"
    and all: "mset (map inputPath (xs @ ys)) = mset paths"
    and i: "i < length paths" "P i" and j: "j < length paths" "\<not> P j"
  shows "\<exists>m n. m < n \<and> n < length (xs @ ys) \<and> inputPath ((xs @ ys) ! m) = paths ! i
      \<and> inputPath ((xs @ ys) ! n) = paths ! j"
proof -
  have "mset paths = mset (map (nth paths) [0..<length paths])" by (simp only: map_nth)
  also have "\<dots> = image_mset (nth paths) (mset [0..<length paths])" by simp
  also have "mset [0..<length paths]
      = mset (filter (\<lambda>i. P i) [0..<length paths]) + mset (filter (\<lambda>i. \<not> P i) [0..<length paths])"
    by (simp only: mset_filter multiset_partition [symmetric])
  finally have "mset (map inputPath xs) + mset (map inputPath ys)
      = mset (map inputPath xs)
        + image_mset (nth paths) (mset (filter (\<lambda>i. \<not> P i) [0..<length paths]))"
    using all pre by simp
  then have rest: "mset (map inputPath ys)
      = image_mset (nth paths) (mset (filter (\<lambda>i. \<not> P i) [0..<length paths]))"
    by simp
  have "paths ! i \<in># mset (map inputPath xs)"
    unfolding pre using i by auto
  then have "paths ! i \<in> set (map inputPath xs)" by simp
  then obtain m where m: "m < length xs" "inputPath (xs ! m) = paths ! i"
    by (auto simp: in_set_conv_nth)
  have "paths ! j \<in># mset (map inputPath ys)"
    unfolding rest using j by auto
  then have "paths ! j \<in> set (map inputPath ys)" by simp
  then obtain n where n: "n < length ys" "inputPath (ys ! n) = paths ! j"
    by (auto simp: in_set_conv_nth)
  have "m < length xs + n \<and> length xs + n < length (xs @ ys)
      \<and> inputPath ((xs @ ys) ! m) = paths ! i
      \<and> inputPath ((xs @ ys) ! (length xs + n)) = paths ! j"
    using m n by (simp add: nth_append)
  then show ?thesis by blast
qed

text \<open>
  C6, as amended. A batch with at least one slot that has not returned is waiting for a
  \<open>processFile\<close> call, and returns once the running calls have settled. When
  \<open>processFiles\<close> returns, it returns one result per input path (as many results as
  paths, and the paths of the results are the input paths up to order), in the order in
  which the tasks settled: at every instant of the run the results pushed so far are a
  prefix of the returned array and are the results of the tasks settled so far, so the
  result of a task that has settled stands before the result of a task that has not. The
  sort by input index in the batch handler of \<open>main.js\<close> restores the input order when
  the input paths are pairwise distinct. The hypothesis on the events says that a result
  returned by \<open>processFile\<close> carries the path it was called with.
\<close>

theorem C6_processFiles_completion_order:
  fixes N :: int and paths :: "string list" and sg :: "abort_signal option"
    and evs :: "batch_event list"
  assumes N: "1 \<le> N" and tagged: "list_all (event_tagged paths) evs"
  defines "st k \<equiv> batch_run paths (processFiles_start N sg paths) (take k evs)"
  shows "(processFiles N sg paths evs = None \<longrightarrow>
            (\<exists>i<length paths. tasks (st (length evs)) ! i = Running))
    \<and> (\<exists>evs'. list_all (event_tagged paths) evs' \<and> processFiles N sg paths (evs @ evs') \<noteq> None)
    \<and> (processFiles N sg paths evs = Some rs \<longrightarrow>
          length rs = length paths
        \<and> mset (map inputPath rs) = mset paths
        \<and> (\<forall>k\<le>length evs.
              take (length (results (st k))) rs = results (st k)
            \<and> mset (map inputPath (results (st k)))
                = image_mset (nth paths)
                    (mset (filter (\<lambda>i. tasks (st k) ! i = Settled) [0..<length paths]))
            \<and> (\<forall>i j. i < length paths \<and> j < length paths
                    \<and> tasks (st k) ! i = Settled \<and> tasks (st k) ! j \<noteq> Settled \<longrightarrow>
                  (\<exists>m n. m < n \<and> n < length rs \<and> inputPath (rs ! m) = paths ! i
                      \<and> inputPath (rs ! n) = paths ! j)))
        \<and> (distinct paths \<longrightarrow> map inputPath (sort_by_input paths rs) = paths))"
proof -
  let ?b = "batch_run paths (processFiles_start N sg paths) evs"
  have fin: "st (length evs) = ?b" by (simp add: st_def)
  have inv: "binv {} True paths N 0 [] ?b"
    using tagged by (intro binv_reachable) simp
  from processFiles_start_started [of paths N sg]
  have J: "\<forall>j<length paths. tasks ?b ! j \<noteq> NotStarted"
    "queue (sem ?b) \<noteq> [] \<longrightarrow> sem_max (sem ?b) \<le> current (sem ?b)"
    using batch_run_started [of "length paths" "processFiles_start N sg paths" paths evs] by blast+
  have pending: "\<exists>i<length paths. tasks (st (length evs)) ! i = Running"
    if "processFiles N sg paths evs = None"
  proof -
    from that have "\<not> list_all (\<lambda>t. t = Settled) (tasks ?b)"
      by (auto simp: processFiles_def Let_def split: if_splits)
    from pending_has_running [OF N inv J this] show ?thesis by (simp only: fin)
  qed
  have returns: "\<exists>evs'. list_all (event_tagged paths) evs' \<and> processFiles N sg paths (evs @ evs') \<noteq> None"
  proof -
    from batch_completes [OF N inv J] obtain evs' where e: "list_all (event_tagged paths) evs'"
      "list_all (\<lambda>t. t = Settled) (tasks (batch_run paths ?b evs'))" by blast
    then have "processFiles N sg paths (evs @ evs') \<noteq> None"
      by (simp add: processFiles_def Let_def batch_run_append)
    with e(1) show ?thesis by blast
  qed
  have order: "length rs = length paths
        \<and> mset (map inputPath rs) = mset paths
        \<and> (\<forall>k\<le>length evs.
              take (length (results (st k))) rs = results (st k)
            \<and> mset (map inputPath (results (st k)))
                = image_mset (nth paths)
                    (mset (filter (\<lambda>i. tasks (st k) ! i = Settled) [0..<length paths]))
            \<and> (\<forall>i j. i < length paths \<and> j < length paths
                    \<and> tasks (st k) ! i = Settled \<and> tasks (st k) ! j \<noteq> Settled \<longrightarrow>
                  (\<exists>m n. m < n \<and> n < length rs \<and> inputPath (rs ! m) = paths ! i
                      \<and> inputPath (rs ! n) = paths ! j)))
        \<and> (distinct paths \<longrightarrow> map inputPath (sort_by_input paths rs) = paths)"
    if ret: "processFiles N sg paths evs = Some rs"
  proof -
    from ret have all: "list_all (\<lambda>t. t = Settled) (tasks ?b)" and rs: "rs = results ?b"
      by (auto simp: processFiles_def Let_def split: if_splits)
    from inv have len: "length (tasks ?b) = length paths" by (simp add: binv_def)
    have "filter (\<lambda>i. tasks ?b ! i = Settled) [0..<length paths] = [0..<length paths]"
      using all len by (auto simp: list_all_length filter_id_conv)
    with inv have "mset (map inputPath rs) = image_mset (nth paths) (mset [0..<length paths])"
      unfolding rs by (simp add: binv_def)
    also have "\<dots> = mset (map (nth paths) [0..<length paths])" by simp
    also have "\<dots> = mset paths" by (simp only: map_nth)
    finally have m: "mset (map inputPath rs) = mset paths" .
    then have "size (mset (map inputPath rs)) = size (mset paths)" by simp
    then have l: "length rs = length paths" by simp
    have at: "take (length (results (st k))) rs = results (st k)
            \<and> mset (map inputPath (results (st k)))
                = image_mset (nth paths)
                    (mset (filter (\<lambda>i. tasks (st k) ! i = Settled) [0..<length paths]))
            \<and> (\<forall>i j. i < length paths \<and> j < length paths
                    \<and> tasks (st k) ! i = Settled \<and> tasks (st k) ! j \<noteq> Settled \<longrightarrow>
                  (\<exists>m n. m < n \<and> n < length rs \<and> inputPath (rs ! m) = paths ! i
                      \<and> inputPath (rs ! n) = paths ! j))"
      if k: "k \<le> length evs" for k
    proof -
      have "list_all (event_tagged paths) (take k evs)"
        using tagged by (auto simp: list_all_iff dest: in_set_takeD)
      then have invk: "binv {} True paths N 0 [] (st k)"
        unfolding st_def by (intro binv_reachable) simp
      then have pre: "mset (map inputPath (results (st k)))
                = image_mset (nth paths)
                    (mset (filter (\<lambda>i. tasks (st k) ! i = Settled) [0..<length paths]))"
        by (simp add: binv_def)
      have "?b = batch_run paths (st k) (drop k evs)"
        unfolding st_def by (simp only: batch_run_append [symmetric] append_take_drop_id)
      with batch_run_results_app [of paths "st k" "drop k evs"]
      obtain ys where ys: "rs = results (st k) @ ys" unfolding rs by auto
      then have tk: "take (length (results (st k))) rs = results (st k)" by simp
      have "\<exists>m n. m < n \<and> n < length rs \<and> inputPath (rs ! m) = paths ! i
                      \<and> inputPath (rs ! n) = paths ! j"
        if "i < length paths" "j < length paths" "tasks (st k) ! i = Settled"
          "tasks (st k) ! j \<noteq> Settled" for i j
        unfolding ys
        using pre m [unfolded ys] that(1) that(3) that(2) that(4)
        by (rule settled_then_unsettled)
      with tk pre show ?thesis by blast
    qed
    from l m at sort_by_input_restores [OF _ m] show ?thesis by blast
  qed
  from pending returns order show ?thesis by blast
qed


text \<open>
  C6 as stated fails: with two slots and the second file finishing first, \<open>processFiles\<close>
  returns the results in the order of completion, not of input.
\<close>

theorem C6_counterexample:
  "map_option (map inputPath)
     (processFiles 2 None [''a.log'', ''b.log'']
        [Settle 1 (Returned \<lparr>inputPath = ''b.log'', outputPath = Some ''b.masked.log'',
             success = True, cancelled = False, error = None, stats = None, processingTime = 5\<rparr>),
         Settle 0 (Returned \<lparr>inputPath = ''a.log'', outputPath = Some ''a.masked.log'',
             success = True, cancelled = False, error = None, stats = None, processingTime = 9\<rparr>)])
   = Some [''b.log'', ''a.log'']"
  by code_simp


theorem C6_witness:
  "(1::int) \<le> 2
   \<and> list_all (event_tagged [''a.log'', ''b.log''])
     [Settle 1 (Returned (failed_result ''b.log'' ''File appears to be binary'')),
      Settle 0 (Returned (cancelled_result ''a.log''))]
   \<and> processFiles 2 None [''a.log'', ''b.log'']
        [Settle 1 (Returned (failed_result ''b.log'' ''File appears to be binary'')),
         Settle 0 (Returned (cancelled_result ''a.log''))]
      = Some [failed_result ''b.log'' ''File appears to be binary'', cancelled_result ''a.log'']
   \<and> tasks (batch_run [''a.log'', ''b.log''] (processFiles_start 2 None [''a.log'', ''b.log''])
        [Settle 1 (Returned (failed_result ''b.log'' ''File appears to be binary''))])
      = [Running, Settled]
   \<and> (\<exists>m n. m < n
        \<and> n < length [failed_result ''b.log'' ''File appears to be binary'', cancelled_result ''a.log'']
        \<and> inputPath ([failed_result ''b.log'' ''File appears to be binary'',
              cancelled_result ''a.log''] ! m) = ''b.log''
        \<and> inputPath ([failed_result ''b.log'' ''File appears to be binary'',
              cancelled_result ''a.log''] ! n) = ''a.log'')
   \<and> map inputPath (sort_by_input [''a.log'', ''b.log'']
         [failed_result ''b.log'' ''File appears to be binary'', cancelled_result ''a.log''])
       = [''a.log'', ''b.log'']"
proof -
  let ?P = "[''a.log'', ''b.log'']"
  let ?e1 = "Settle 1 (Returned (failed_result ''b.log'' ''File appears to be binary''))"
  let ?evs = "[?e1, Settle 0 (Returned (cancelled_result ''a.log''))]"
  let ?rs = "[failed_result ''b.log'' ''File appears to be binary'', cancelled_result ''a.log'']"
  have h0: "(1::int) \<le> 2" by simp
  have h1: "list_all (event_tagged ?P) ?evs" by code_simp
  have h2: "processFiles 2 None ?P ?evs = Some ?rs" by code_simp
  have h3: "distinct ?P" by simp
  have h4: "tasks (batch_run ?P (processFiles_start 2 None ?P) [?e1]) = [Running, Settled]"
    by code_simp
  have tk: "take 1 ?evs = [?e1]" by simp
  from C6_processFiles_completion_order [OF h0 h1, of None ?rs] h2
  have ord: "\<forall>k\<le>length ?evs. \<forall>i j. i < length ?P \<and> j < length ?P
        \<and> tasks (batch_run ?P (processFiles_start 2 None ?P) (take k ?evs)) ! i = Settled
        \<and> tasks (batch_run ?P (processFiles_start 2 None ?P) (take k ?evs)) ! j \<noteq> Settled \<longrightarrow>
      (\<exists>m n. m < n \<and> n < length ?rs \<and> inputPath (?rs ! m) = ?P ! i \<and> inputPath (?rs ! n) = ?P ! j)"
    and srt: "distinct ?P \<longrightarrow> map inputPath (sort_by_input ?P ?rs) = ?P"
    by blast+
  from ord [rule_format, of 1 1 0] h4
  have "\<exists>m n. m < n \<and> n < length ?rs \<and> inputPath (?rs ! m) = ''b.log''
      \<and> inputPath (?rs ! n) = ''a.log''"
    unfolding tk by simp
  with h0 h1 h2 h3 h4 srt show ?thesis by blast
qed

theorem C5_witness:
  "(1::int) \<le> 1
   \<and> int (running_tasks (processFiles_start 1 (Some \<lparr>aborted = False, reason = ReasonUndefined\<rparr>)
         [''a.log'', ''b.log'', ''c.log''])) \<le> 1
   \<and> tasks (batch_step [''a.log'', ''b.log'', ''c.log'']
         (processFiles_start 1 (Some \<lparr>aborted = False, reason = ReasonUndefined\<rparr>)
            [''a.log'', ''b.log'', ''c.log''])
         (Settle 0 (Threw (new_Error ''ENOSPC'')))) ! 1 = Running
   \<and> queue (sem (batch_step [''a.log'', ''b.log'', ''c.log'']
         (processFiles_start 1 (Some \<lparr>aborted = False, reason = ReasonUndefined\<rparr>)
            [''a.log'', ''b.log'', ''c.log''])
         (Settle 0 (Threw (new_Error ''ENOSPC''))))) = [\<lparr>entry_task = 2, entry_signal = True\<rparr>]
   \<and> queue (sem (batch_step [''a.log'', ''b.log'', ''c.log'']
         (processFiles_start 1 (Some \<lparr>aborted = False, reason = ReasonUndefined\<rparr>)
            [''a.log'', ''b.log'', ''c.log''])
         (SignalAbort ReasonUndefined))) = []
   \<and> tasks (batch_run [''a.log'', ''b.log'', ''c.log'']
         (batch_step [''a.log'', ''b.log'', ''c.log'']
            (processFiles_start 1 (Some \<lparr>aborted = False, reason = ReasonUndefined\<rparr>)
               [''a.log'', ''b.log'', ''c.log''])
            (SignalAbort ReasonUndefined))
         [Settle 0 (Threw (new_Error ''ENOSPC''))]) ! 2 = Settled"
proof -
  let ?P = "[''a.log'', ''b.log'', ''c.log'']"
  let ?g = "\<lparr>aborted = False, reason = ReasonUndefined\<rparr>"
  let ?b = "batch_run ?P (processFiles_start 1 (Some ?g) ?P) []"
  have b: "?b = processFiles_start 1 (Some ?g) ?P" by (simp add: batch_run_def)
  have N: "(1::int) \<le> 1" by simp
  have p1: "tasks ?b ! 0 = Running \<and> 0 < length ?P
      \<and> queue (sem ?b) = \<lparr>entry_task = 1, entry_signal = True\<rparr> # [\<lparr>entry_task = 2, entry_signal = True\<rparr>]
      \<and> \<not> signal_aborted (signal ?b)"
    by code_simp
  have p2: "signal ?b = Some ?g \<and> \<not> aborted ?g \<and> 2 \<in> set (queued_tasks ?b)"
    by code_simp
  from C5_semaphore_bound_fifo_abort [OF N, of ?P "Some ?g" "[]" 0
      "\<lparr>entry_task = 1, entry_signal = True\<rparr>" "[\<lparr>entry_task = 2, entry_signal = True\<rparr>]"
      "Threw (new_Error ''ENOSPC'')" ?g 2 ReasonUndefined "[Settle 0 (Threw (new_Error ''ENOSPC''))]"]
    p1 p2
  show ?thesis unfolding b by simp
qed


subsection \<open>The line scrubber\<close>

lemma lit_text: "concat (map (segment_text \<circ> Lit) xs) = xs"
  by (induction xs) simp_all

lemma regex_split_text: "concat (map segment_text (regex_split rx prev rest pos)) = rest"
proof (induction rx prev rest pos rule: regex_split.induct)
  case (1 rx prev rest pos)
  show ?case
  proof (cases "match_here rx prev rest")
    case None
    show ?thesis
    proof (cases rest)
      case Nil
      then show ?thesis using None by (subst regex_split.simps) simp
    next
      case (Cons x xs)
      from "1.IH" (1) [OF None Cons] show ?thesis
        using None Cons by (subst regex_split.simps) simp
    qed
  next
    case (Some a)
    obtain c n where a: "a = (c, n)" by (cases a)
    have sm: "match_here rx prev rest = Some (c, n)" using Some a by simp
    show ?thesis
    proof (cases "re_global rx")
      case False
      then show ?thesis
        using sm by (subst regex_split.simps) (simp add: lit_text)
    next
      case g: True
      then have nn: "\<not> \<not> re_global rx" by simp
      show ?thesis
      proof (cases "0 < n")
        case True
        from "1.IH" (2) [OF sm refl nn True] show ?thesis
          using sm g True by (subst regex_split.simps) simp
      next
        case False
        show ?thesis
        proof (cases rest)
          case Nil
          then show ?thesis using sm g False by (subst regex_split.simps) simp
        next
          case (Cons x xs)
          from "1.IH" (3) [OF sm refl nn False Cons] show ?thesis
            using sm g False Cons by (subst regex_split.simps) simp
        qed
      qed
    qed
  qed
qed

lemma js_replace_id:
  assumes "\<And>pos t c. Match pos t c \<in> set (regex_split rx None s 0) \<Longrightarrow> f t c pos s = t"
  shows "js_replace rx f s = s"
proof -
  have eq: "map (\<lambda>seg. case seg of Lit c \<Rightarrow> [c] | Match pos t c \<Rightarrow> f t c pos s) (regex_split rx None s 0)
        = map segment_text (regex_split rx None s 0)"
    using assms by (intro map_cong refl) (auto split: segment.splits)
  show ?thesis
    unfolding js_replace_def eq by (rule regex_split_text)
qed

lemma js_replace_no_match: "\<not> has_match rx s \<Longrightarrow> js_replace rx f s = s"
  by (rule js_replace_id) (auto simp: has_match_def list_ex_iff)

lemma js_match_length_zero: "js_match_length rx s = 0 \<longleftrightarrow> \<not> has_match rx s"
  by (auto simp: js_match_length_def has_match_def Let_def list_ex_iff filter_empty_conv)

lemma maskKeyValuePairs_unchanged:
  "maskKeyValuePairs sc line = Inr (m, False) \<Longrightarrow> m = line"
  unfolding maskKeyValuePairs_def
  by (auto split: sum.splits simp: list_ex_iff kv_replacer_def intro!: js_replace_id)

lemma maskSensitiveKeywords_unchanged:
  "maskSensitiveKeywords sc line = (m, False) \<Longrightarrow> m = line"
  unfolding maskSensitiveKeywords_def
  by (auto split: sum.splits if_splits simp: js_replace_no_match)

lemma maskPatterns_loop_changed:
  "maskPatterns_loop sc ps t True found = (t', ch, found') \<Longrightarrow> ch"
  by (induction ps arbitrary: t found)
     (auto split: option.splits sum.splits if_splits prod.splits simp: Let_def)

lemma maskPatterns_loop_unchanged:
  "maskPatterns_loop sc ps t False found = (t', False, found') \<Longrightarrow> t' = t"
  by (induction ps arbitrary: t found)
     (auto split: option.splits sum.splits if_splits prod.splits simp: Let_def
           dest: maskPatterns_loop_changed)

lemma maskPatterns_unchanged: "maskPatterns sc line = (m, False, found) \<Longrightarrow> m = line"
  unfolding maskPatterns_def by (rule maskPatterns_loop_unchanged)

lemma maskJsonLine_unchanged:
  "maskJsonLine sc line = Inr j \<Longrightarrow> \<not> json_hasChanges j \<Longrightarrow> json_masked j = line"
  by (subst (asm) maskJsonLine.simps)
     (auto simp: Let_def split: if_splits option.splits sum.splits prod.splits)

lemma processLine_try_unchanged:
  assumes "processLine_try sc line = Inr (r, sc')"
  shows "original r = line \<and> LineResult.error r = None \<and> (\<not> hasChanges r \<longrightarrow> masked r = line)"
  using assms unfolding processLine_try_def
  by (auto split: if_splits sum.splits prod.splits
           dest!: maskJsonLine_unchanged maskKeyValuePairs_unchanged
                  maskSensitiveKeywords_unchanged maskPatterns_unchanged)


lemma processLine_try_stats:
  assumes "processLine_try sc line = Inr (r, sc')"
  shows "errors (LogScrubber.stats sc') = errors (LogScrubber.stats sc)
     \<and> totalLines (LogScrubber.stats sc') = totalLines (LogScrubber.stats sc)
     \<and> defaultMask sc' = defaultMask sc"
  using assms unfolding processLine_try_def
  by (auto split: if_splits sum.splits prod.splits)







lemma maskArray_masked_leaves:
  "maskArray sc (replicate n (JString (defaultMask sc)))
     = Inr (replicate n (JString (defaultMask sc)), False)"
  by (induction n) (simp_all add: maskArray.simps maskValue.simps)



text \<open>
  C7. With the default configuration \<open>processLine\<close> maps the line
  \<open>{"password":"abc","user":"bob"}\<close> to \<open>{"password":"***","user":"bob"}\<close>, and the same
  scrubber applied to that output returns it again.
\<close>

theorem C7_default_config_fixed_point:
  \<open>(case processLine (LogScrubber_new no_options) ''{"password":"abc","user":"bob"}'' of
      (r1, sc1) \<Rightarrow>
        masked r1 = ''{"password":"***","user":"bob"}''
        \<and> masked (fst (processLine sc1 (masked r1))) = masked r1)\<close>
  by code_simp

end
